theory Spec2Isabelle
  imports Main "HOL-Library.Word"
begin

section \<open>Strings, JSON values and errors\<close>

text \<open>
  The client of \<^verbatim>\<open>custom-history-client\<close> (second part of
  \<^verbatim>\<open>src/ui/src/app/api/copilotkit/route.ts\<close>) works on JavaScript strings, which are
  sequences of 16-bit UTF-16 code units. A string literal of the source is written
  \<open>js ''...''\<close>; the line feed is the code unit 10.
\<close>

type_synonym code_unit = "16 word"
type_synonym jsstring = "code_unit list"

definition js :: "string \<Rightarrow> jsstring" where
  "js s = map of_char s"

definition LF :: code_unit where
  "LF = 10"

text \<open>
  Parsed JSON. Numbers are kept abstract (\<open>'n\<close>): the client never computes with a number
  it received.
\<close>

datatype 'n jsonv =
    JNull
  | JBool bool
  | JNumber 'n
  | JString jsstring
  | JArray "'n jsonv list"
  | JObject "(jsstring \<times> 'n jsonv) list"

text \<open>
  What a call can throw: \<open>Error msg\<close> is \<^verbatim>\<open>new Error(msg)\<close> of the source,
  \<open>URIError\<close> is raised by \<^verbatim>\<open>encodeURIComponent\<close>, and \<open>Failure k\<close> stands for an
  exception of the platform (a rejected \<^verbatim>\<open>fetch\<close>, a failed read of the body, a body that
  \<^verbatim>\<open>response.json()\<close> cannot parse).
\<close>

datatype error = Error jsstring | URIError | Failure nat

section \<open>Platform functions used by the client\<close>

subsection \<open>\<^verbatim>\<open>encodeURIComponent\<close>\<close>

text \<open>
  ECMAScript's \<^verbatim>\<open>Encode\<close> with the unreserved set of \<^verbatim>\<open>encodeURIComponent\<close>: letters,
  digits and \<^verbatim>\<open>- _ . ! ~ * ' ( )\<close> are kept, every other code point is written as the
  percent-escapes of its UTF-8 octets, and an unpaired surrogate raises \<open>URIError\<close>.
\<close>

definition uriUnreserved :: "code_unit \<Rightarrow> bool" where
  "uriUnreserved c \<longleftrightarrow>
     (0x41 \<le> c \<and> c \<le> 0x5A) \<or> (0x61 \<le> c \<and> c \<le> 0x7A) \<or> (0x30 \<le> c \<and> c \<le> 0x39) \<or>
     c \<in> set (js ''-_.!~*'') \<or> c = 0x27 \<or> c = 0x28 \<or> c = 0x29"

definition isLeadSurrogate :: "code_unit \<Rightarrow> bool" where
  "isLeadSurrogate c \<longleftrightarrow> 0xD800 \<le> c \<and> c \<le> 0xDBFF"

definition isTrailSurrogate :: "code_unit \<Rightarrow> bool" where
  "isTrailSurrogate c \<longleftrightarrow> 0xDC00 \<le> c \<and> c \<le> 0xDFFF"

definition surrogatePair :: "code_unit \<Rightarrow> code_unit \<Rightarrow> nat" where
  "surrogatePair lead trail = (unat lead - 0xD800) * 0x400 + (unat trail - 0xDC00) + 0x10000"

definition utf8 :: "nat \<Rightarrow> nat list" where
  "utf8 cp =
     (if cp < 0x80 then [cp]
      else if cp < 0x800 then [0xC0 + cp div 0x40, 0x80 + cp mod 0x40]
      else if cp < 0x10000 then
        [0xE0 + cp div 0x1000, 0x80 + (cp div 0x40) mod 0x40, 0x80 + cp mod 0x40]
      else
        [0xF0 + cp div 0x40000, 0x80 + (cp div 0x1000) mod 0x40,
         0x80 + (cp div 0x40) mod 0x40, 0x80 + cp mod 0x40])"

definition hexDigit :: "nat \<Rightarrow> code_unit" where
  "hexDigit d = js ''0123456789ABCDEF'' ! (d mod 16)"

definition percent :: "nat \<Rightarrow> jsstring" where
  "percent octet = [0x25, hexDigit (octet div 16), hexDigit (octet mod 16)]"

definition escaped :: "nat \<Rightarrow> jsstring" where
  "escaped cp = concat (map percent (utf8 cp))"

fun encodeURIComponent :: "jsstring \<Rightarrow> error + jsstring" where
  "encodeURIComponent [] = Inr []"
| "encodeURIComponent [c] =
     (if uriUnreserved c then Inr [c]
      else if isTrailSurrogate c \<or> isLeadSurrogate c then Inl URIError
      else Inr (escaped (unat c)))"
| "encodeURIComponent (c # d # rest) =
     (if uriUnreserved c then
        (case encodeURIComponent (d # rest) of Inl e \<Rightarrow> Inl e | Inr r \<Rightarrow> Inr (c # r))
      else if isTrailSurrogate c then Inl URIError
      else if isLeadSurrogate c then
        (if isTrailSurrogate d then
           (case encodeURIComponent rest of
              Inl e \<Rightarrow> Inl e
            | Inr r \<Rightarrow> Inr (escaped (surrogatePair c d) @ r))
         else Inl URIError)
      else
        (case encodeURIComponent (d # rest) of
           Inl e \<Rightarrow> Inl e
         | Inr r \<Rightarrow> Inr (escaped (unat c) @ r)))"

subsection \<open>Numbers in a template literal\<close>

text \<open>
  \<^verbatim>\<open>limit\<close> is modelled as an integer; an integer of magnitude below \<open>10^21\<close> is
  printed by a template literal in plain decimal, with a leading minus sign when negative.
\<close>

fun decimal :: "nat \<Rightarrow> jsstring" where
  "decimal n = (if n < 10 then [0x30 + of_nat n] else decimal (n div 10) @ [0x30 + of_nat (n mod 10)])"

definition toString :: "int \<Rightarrow> jsstring" where
  "toString n = (if n < 0 then 0x2D # decimal (nat (- n)) else decimal (nat n))"

section \<open>The network and the body reader\<close>

text \<open>
  A response body is the sequence of texts that the successive reads deliver, each already
  passed through \<^verbatim>\<open>decoder.decode(value, {stream: true})\<close>, and the way the stream ends:
  \<open>failure = None\<close> when the source signals completion, \<open>Some e\<close> when the read after the
  last chunk rejects with \<open>e\<close>.
\<close>

record stream =
  chunks :: "jsstring list"
  failure :: "error option"

datatype http_method = GET | POST

record 'n request =
  verb :: http_method
  href :: jsstring
  headers :: "(jsstring \<times> jsstring) list"
  payload :: "'n jsonv option"

record 'n response =
  status :: nat
  statusText :: jsstring
  json :: "error + 'n jsonv"
  body :: "stream option"

text \<open>\<^verbatim>\<open>response.ok\<close> of the Fetch standard: the status is in the range 200 to 299.\<close>

definition ok :: "'n response \<Rightarrow> bool" where
  "ok response \<longleftrightarrow> 200 \<le> status response \<and> status response \<le> 299"

text \<open>
  The world outside the client: how the backend answers a request (\<open>Inl\<close> when
  \<^verbatim>\<open>fetch\<close> rejects), the requests sent so far, and how often a reader was obtained from a
  body (\<^verbatim>\<open>getReader\<close>) and released (\<^verbatim>\<open>releaseLock\<close>).
\<close>

record 'n world =
  respond :: "'n request \<Rightarrow> error + 'n response"
  sent :: "'n request list"
  acquired :: nat
  released :: nat

definition fetch :: "'n request \<Rightarrow> 'n world \<Rightarrow> (error + 'n response) \<times> 'n world" where
  "fetch req w = (respond w req, w\<lparr>sent := sent w @ [req]\<rparr>)"

definition getReader :: "'n world \<Rightarrow> 'n world" where
  "getReader w = w\<lparr>acquired := acquired w + 1\<rparr>"

definition releaseLock :: "'n world \<Rightarrow> 'n world" where
  "releaseLock w = w\<lparr>released := released w + 1\<rparr>"

section \<open>\<^verbatim>\<open>createFastAPIHistoryClient\<close>: the request/response operations\<close>

text \<open>\<^verbatim>\<open>baseUrl.replace(/\/$/, "")\<close>: one trailing slash is removed.\<close>

definition normalized :: "jsstring \<Rightarrow> jsstring" where
  "normalized baseUrl =
     (if baseUrl \<noteq> [] \<and> last baseUrl = 0x2F then butlast baseUrl else baseUrl)"

text \<open>\<^verbatim>\<open>fetch(href)\<close> with no second argument is a GET without headers or body.\<close>

definition get :: "jsstring \<Rightarrow> 'n request" where
  "get h = \<lparr>verb = GET, href = h, headers = [], payload = None\<rparr>"

record history_options =
  limit :: "int option"

definition getHistory ::
  "jsstring \<Rightarrow> jsstring \<Rightarrow> history_options option \<Rightarrow> 'n world \<Rightarrow> (error + 'n jsonv) \<times> 'n world"
where
  "getHistory baseUrl threadId options w =
     (let lim = (case options of
                   None \<Rightarrow> 100
                 | Some opts \<Rightarrow> (case limit opts of None \<Rightarrow> 100 | Some n \<Rightarrow> n))
      in case encodeURIComponent threadId of
           Inl e \<Rightarrow> (Inl e, w)
         | Inr tid \<Rightarrow>
             (case fetch (get (normalized baseUrl @ js ''/threads/'' @ tid @
                               js ''/history?limit='' @ toString lim)) w of
                (Inl e, w') \<Rightarrow> (Inl e, w')
              | (Inr response, w') \<Rightarrow>
                  if \<not> ok response
                  then (Inl (Error (js ''Failed to fetch history: '' @ statusText response)), w')
                  else (json response, w')))"

text \<open>The state returned for a thread the backend does not know.\<close>

definition emptyState :: "'n jsonv" where
  "emptyState =
     JObject [(js ''values'', JObject [(js ''messages'', JArray [])]),
              (js ''next'', JArray []),
              (js ''tasks'', JArray [])]"

definition getState ::
  "jsstring \<Rightarrow> jsstring \<Rightarrow> 'n world \<Rightarrow> (error + 'n jsonv) \<times> 'n world"
where
  "getState baseUrl threadId w =
     (case encodeURIComponent threadId of
        Inl e \<Rightarrow> (Inl e, w)
      | Inr tid \<Rightarrow>
          (case fetch (get (normalized baseUrl @ js ''/threads/'' @ tid @ js ''/state'')) w of
             (Inl e, w') \<Rightarrow> (Inl e, w')
           | (Inr response, w') \<Rightarrow>
               if \<not> ok response then
                 (if status response = 404 then (Inr emptyState, w')
                  else (Inl (Error (js ''Failed to fetch state: '' @ statusText response)), w'))
               else (json response, w')))"

definition list ::
  "jsstring \<Rightarrow> jsstring \<Rightarrow> 'n world \<Rightarrow> (error + 'n jsonv) \<times> 'n world"
where
  "list baseUrl threadId w =
     (case encodeURIComponent threadId of
        Inl e \<Rightarrow> (Inl e, w)
      | Inr tid \<Rightarrow>
          (case fetch (get (normalized baseUrl @ js ''/runs?thread_id='' @ tid)) w of
             (Inl e, w') \<Rightarrow> (Inl e, w')
           | (Inr response, w') \<Rightarrow>
               if \<not> ok response
               then (Inl (Error (js ''Failed to list runs: '' @ statusText response)), w')
               else (json response, w')))"

section \<open>\<^verbatim>\<open>joinStream\<close>: the event-stream decoder\<close>

subsection \<open>String operations of the loop\<close>

text \<open>\<^verbatim>\<open>buffer.split("\n")\<close>: the pieces between line feeds; never an empty array.\<close>

fun splitLF :: "jsstring \<Rightarrow> jsstring list" where
  "splitLF [] = [[]]"
| "splitLF (c # cs) =
     (if c = LF then [] # splitLF cs
      else (case splitLF cs of [] \<Rightarrow> [[c]] | l # ls \<Rightarrow> (c # l) # ls))"

text \<open>
  \<^verbatim>\<open>lines.pop() || ""\<close>: the last element, removed from the array; the empty string when
  the array is empty.
\<close>

definition pop :: "jsstring list \<Rightarrow> jsstring \<times> jsstring list" where
  "pop ls = (if ls = [] then ([], []) else (last ls, butlast ls))"

definition startsWith :: "jsstring \<Rightarrow> jsstring \<Rightarrow> bool" where
  "startsWith s p \<longleftrightarrow> take (length p) s = p"

text \<open>\<^verbatim>\<open>trim\<close> removes ECMAScript's white space and line terminators at both ends.\<close>

definition isWhiteSpace :: "code_unit \<Rightarrow> bool" where
  "isWhiteSpace c \<longleftrightarrow>
     c \<in> {0x09, 0x0A, 0x0B, 0x0C, 0x0D, 0x20, 0xA0, 0x1680, 0x2028, 0x2029, 0x202F, 0x205F,
          0x3000, 0xFEFF} \<or> (0x2000 \<le> c \<and> c \<le> 0x200A)"

definition trim :: "jsstring \<Rightarrow> jsstring" where
  "trim s = rev (dropWhile isWhiteSpace (rev (dropWhile isWhiteSpace s)))"

subsection \<open>The loops\<close>

record 'n StreamChunk =
  event :: jsstring
  data :: "'n jsonv"

text \<open>
  \<^verbatim>\<open>JSON.parse\<close> is a parameter \<open>parse\<close> of the decoder; \<open>None\<close> is the
  \<^verbatim>\<open>SyntaxError\<close> that the inner \<^verbatim>\<open>try/catch\<close> swallows.

  \<open>for_loop\<close> runs \<^verbatim>\<open>for (const line of lines)\<close> from the given accumulators up to its
  first \<^verbatim>\<open>yield\<close>: the result is the chunk and the lines not yet visited, or \<open>None\<close> when
  the loop ends without yielding.
\<close>

fun for_loop ::
  "(jsstring \<Rightarrow> 'n jsonv option) \<Rightarrow> jsstring \<Rightarrow> jsstring \<Rightarrow> jsstring list \<Rightarrow>
   ('n StreamChunk \<times> jsstring list) option"
where
  "for_loop parse currentEvent currentData [] = None"
| "for_loop parse currentEvent currentData (line # lines) =
     (if startsWith line (js ''event: '') then
        for_loop parse (trim (drop 7 line)) currentData lines
      else if startsWith line (js ''data: '') then
        for_loop parse currentEvent (drop 6 line) lines
      else if line = [] \<and> currentData \<noteq> [] then
        (case parse currentData of
           Some d \<Rightarrow>
             Some (\<lparr>event = (if currentEvent \<noteq> [] then currentEvent else js ''message''),
                    data = d\<rparr>, lines)
         | None \<Rightarrow> for_loop parse [] [] lines)
      else for_loop parse currentEvent currentData lines)"

text \<open>
  How control leaves a stretch of the \<^verbatim>\<open>try\<close> block: suspended at the \<^verbatim>\<open>yield\<close> (with
  the chunk, and the buffer, the unvisited lines and the rest of the body to resume from),
  by \<^verbatim>\<open>break\<close>, or by an exception.
\<close>

datatype 'n try_exit =
    Suspend "'n StreamChunk" jsstring "jsstring list" stream
  | Break
  | Throw error

text \<open>
  \<^verbatim>\<open>while (true)\<close>: one iteration per read. The accumulators \<^verbatim>\<open>currentEvent\<close> and
  \<^verbatim>\<open>currentData\<close> are declared inside the loop body, so every iteration starts them empty.
\<close>

fun while_loop ::
  "(jsstring \<Rightarrow> 'n jsonv option) \<Rightarrow> jsstring \<Rightarrow> jsstring list \<Rightarrow> error option \<Rightarrow> 'n try_exit"
where
  "while_loop parse buffer [] fail = (case fail of None \<Rightarrow> Break | Some e \<Rightarrow> Throw e)"
| "while_loop parse buffer (v # rest) fail =
     (let (buffer', lines) = pop (splitLF (buffer @ v))
      in case for_loop parse [] [] lines of
           Some (c, lines') \<Rightarrow> Suspend c buffer' lines' \<lparr>chunks = rest, failure = fail\<rparr>
         | None \<Rightarrow> while_loop parse buffer' rest fail)"

text \<open>
  Resuming after the \<^verbatim>\<open>yield\<close>: both accumulators are cleared, the \<^verbatim>\<open>for\<close> loop goes on
  with the lines not yet visited, then the \<^verbatim>\<open>while\<close> loop with the next read.
\<close>

definition resume ::
  "(jsstring \<Rightarrow> 'n jsonv option) \<Rightarrow> jsstring \<Rightarrow> jsstring list \<Rightarrow> stream \<Rightarrow> 'n try_exit"
where
  "resume parse buffer lines s =
     (case for_loop parse [] [] lines of
        Some (c, lines') \<Rightarrow> Suspend c buffer lines' s
      | None \<Rightarrow> while_loop parse buffer (chunks s) (failure s))"

subsection \<open>The generator\<close>

record join_options =
  streamMode :: "jsstring list option"

text \<open>
  An async generator is created suspended at its start (no code of the body has run), is
  suspended at a \<^verbatim>\<open>yield\<close> between two chunks, and is completed after it returned or threw.
\<close>

datatype generator =
    SuspendedStart jsstring jsstring jsstring "join_options option"
  | SuspendedYield jsstring "jsstring list" stream
  | Completed

definition joinStream ::
  "jsstring \<Rightarrow> jsstring \<Rightarrow> jsstring \<Rightarrow> join_options option \<Rightarrow> generator" where
  "joinStream baseUrl threadId runId options = SuspendedStart baseUrl threadId runId options"

datatype 'n iteration = Yielded "'n StreamChunk" | Returned | Threw error

text \<open>
  \<^verbatim>\<open>try { ... } finally { reader.releaseLock() }\<close>: the lock is released when control
  leaves the block, not when the generator is suspended inside it.
\<close>

fun try_finally :: "'n try_exit \<Rightarrow> 'n world \<Rightarrow> 'n iteration \<times> generator \<times> 'n world" where
  "try_finally (Suspend c buffer lines s) w = (Yielded c, SuspendedYield buffer lines s, w)"
| "try_finally Break w = (Returned, Completed, releaseLock w)"
| "try_finally (Throw e) w = (Threw e, Completed, releaseLock w)"

definition join_request :: "jsstring \<Rightarrow> jsstring \<Rightarrow> jsstring \<Rightarrow> join_options option \<Rightarrow> 'n request"
where
  "join_request base rid tid options =
     \<lparr>verb = POST,
      href = base @ js ''/runs/'' @ rid @ js ''/join?thread_id='' @ tid,
      headers = [(js ''Accept'', js ''text/event-stream''),
                 (js ''Content-Type'', js ''application/json'')],
      payload = Some (JObject [(js ''streamMode'',
        JArray (map JString
          (case options of
             None \<Rightarrow> [js ''events'', js ''values'', js ''updates'', js ''custom'']
           | Some opts \<Rightarrow>
               (case streamMode opts of
                  None \<Rightarrow> [js ''events'', js ''values'', js ''updates'', js ''custom'']
                | Some modes \<Rightarrow> modes))))])\<rparr>"

text \<open>
  The first statement of the body: the URL is built (the run id is encoded before the
  thread id) and the request is awaited.
\<close>

definition join_fetch ::
  "jsstring \<Rightarrow> jsstring \<Rightarrow> jsstring \<Rightarrow> join_options option \<Rightarrow> 'n world \<Rightarrow>
   (error + 'n response) \<times> 'n world"
where
  "join_fetch baseUrl threadId runId options w =
     (case encodeURIComponent runId of
        Inl e \<Rightarrow> (Inl e, w)
      | Inr rid \<Rightarrow>
          (case encodeURIComponent threadId of
             Inl e \<Rightarrow> (Inl e, w)
           | Inr tid \<Rightarrow> fetch (join_request (normalized baseUrl) rid tid options) w))"

text \<open>
  \<open>gen_next\<close> is \<^verbatim>\<open>next()\<close>, one pull of the consumer: the generator runs to its next
  suspension or to its end.
\<close>

fun gen_next ::
  "(jsstring \<Rightarrow> 'n jsonv option) \<Rightarrow> generator \<Rightarrow> 'n world \<Rightarrow> 'n iteration \<times> generator \<times> 'n world"
where
  "gen_next parse (SuspendedStart baseUrl threadId runId options) w =
     (case join_fetch baseUrl threadId runId options w of
        (Inl e, w') \<Rightarrow> (Threw e, Completed, w')
      | (Inr response, w') \<Rightarrow>
          if \<not> ok response then
            (Threw (Error (js ''Failed to join stream: '' @ statusText response)), Completed, w')
          else
            (case body response of
               None \<Rightarrow> (Returned, Completed, w')
             | Some s \<Rightarrow>
                 try_finally (while_loop parse [] (chunks s) (failure s)) (getReader w')))"
| "gen_next parse (SuspendedYield buffer lines s) w = try_finally (resume parse buffer lines s) w"
| "gen_next parse Completed w = (Returned, Completed, w)"

text \<open>
  \<open>gen_return\<close> is \<^verbatim>\<open>return()\<close>, what a consumer that stops early calls (by a \<^verbatim>\<open>break\<close> out of
  \<^verbatim>\<open>for await\<close>): at a \<^verbatim>\<open>yield\<close> inside the \<^verbatim>\<open>try\<close> block the \<^verbatim>\<open>finally\<close> block runs;
  a generator that has not started completes without running any code.
\<close>

fun gen_return :: "generator \<Rightarrow> 'n world \<Rightarrow> generator \<times> 'n world" where
  "gen_return (SuspendedStart baseUrl threadId runId options) w = (Completed, w)"
| "gen_return (SuspendedYield buffer lines s) w = (Completed, releaseLock w)"
| "gen_return Completed w = (Completed, w)"

text \<open>
  \<open>gen_throw\<close> is \<^verbatim>\<open>throw(e)\<close>: the exception is raised at the \<^verbatim>\<open>yield\<close>. The
  \<^verbatim>\<open>yield\<close> stands inside the inner \<^verbatim>\<open>try\<close>, whose \<^verbatim>\<open>catch\<close> block swallows every
  exception, so the loop goes on as it does after \<^verbatim>\<open>next()\<close>. A generator that has not
  started, or has completed, throws \<open>e\<close> back.
\<close>

fun gen_throw ::
  "(jsstring \<Rightarrow> 'n jsonv option) \<Rightarrow> error \<Rightarrow> generator \<Rightarrow> 'n world \<Rightarrow>
   'n iteration \<times> generator \<times> 'n world"
where
  "gen_throw parse e (SuspendedStart baseUrl threadId runId options) w = (Threw e, Completed, w)"
| "gen_throw parse e (SuspendedYield buffer lines s) w =
     try_finally (resume parse buffer lines s) w"
| "gen_throw parse e Completed w = (Threw e, Completed, w)"

subsection \<open>Consumers\<close>

text \<open>What is left to do in a suspended generator: the order in which pulling makes progress.\<close>

fun phase :: "generator \<Rightarrow> nat" where
  "phase (SuspendedStart baseUrl threadId runId options) = 2"
| "phase (SuspendedYield buffer lines s) = 1"
| "phase Completed = 0"

fun pending_reads :: "generator \<Rightarrow> nat" where
  "pending_reads (SuspendedYield buffer lines s) = length (chunks s)"
| "pending_reads g = 0"

fun pending_lines :: "generator \<Rightarrow> nat" where
  "pending_lines (SuspendedYield buffer lines s) = length lines"
| "pending_lines g = 0"

text \<open>
  \<^verbatim>\<open>for await (const chunk of joinStream(...))\<close> run to the end: the chunks in the order
  they were yielded, the exception that ended the iteration if there was one, and the
  world afterwards.
\<close>

function collect ::
  "(jsstring \<Rightarrow> 'n jsonv option) \<Rightarrow> generator \<Rightarrow> 'n world \<Rightarrow>
   'n StreamChunk list \<times> error option \<times> 'n world"
where
  "collect parse g w =
     (case gen_next parse g w of
        (Yielded c, g', w') \<Rightarrow>
          (case collect parse g' w' of (cs, r, w'') \<Rightarrow> (c # cs, r, w''))
      | (Returned, g', w') \<Rightarrow> ([], None, w')
      | (Threw e, g', w') \<Rightarrow> ([], Some e, w'))"
  by pat_completeness auto
termination
proof (relation "inv_image (measures [phase, pending_reads, pending_lines]) (\<lambda>(p, g, w). g)")
  show "wf (inv_image (measures [phase, pending_reads, pending_lines])
             (\<lambda>(p :: jsstring \<Rightarrow> 'n jsonv option, g, w :: 'n world). g))"
    by simp
next
  fix parse :: "jsstring \<Rightarrow> 'n jsonv option" and g and w :: "'n world"
    and x1 x2 c g' w'
  assume a: "(x1, x2) = gen_next parse g w" "x1 = Yielded c" "(g', w') = x2"
  have fl: "\<And>ce cd ls c' ls'. for_loop parse ce cd ls = Some (c', ls') \<Longrightarrow> length ls' < length ls"
  proof -
    fix ce cd ls c' ls'
    show "for_loop parse ce cd ls = Some (c', ls') \<Longrightarrow> length ls' < length ls"
      by (induction parse ce cd ls rule: for_loop.induct)
         (auto split: if_splits option.splits)
  qed
  have wl: "\<And>b cs f c' b' ls' s'. while_loop parse b cs f = Suspend c' b' ls' s'
              \<Longrightarrow> length (chunks s') < length cs"
  proof -
    fix b cs f c' b' ls' s'
    show "while_loop parse b cs f = Suspend c' b' ls' s' \<Longrightarrow> length (chunks s') < length cs"
      by (induction cs arbitrary: b)
         (fastforce split: option.splits prod.splits intro: less_SucI)+
  qed
  have tf: "\<And>x v. try_finally x v = (Yielded c, g', w') \<Longrightarrow>
              \<exists>b ls s. x = Suspend c b ls s \<and> g' = SuspendedYield b ls s"
  proof -
    fix x :: "'n try_exit" and v :: "'n world"
    show "try_finally x v = (Yielded c, g', w') \<Longrightarrow>
            \<exists>b ls s. x = Suspend c b ls s \<and> g' = SuspendedYield b ls s"
      by (cases x) auto
  qed
  from a have step: "gen_next parse g w = (Yielded c, g', w')"
    by simp
  show "((parse, g', w'), (parse, g, w))
        \<in> inv_image (measures [phase, pending_reads, pending_lines]) (\<lambda>(p, g, w). g)"
  proof (cases g)
    case (SuspendedStart baseUrl threadId runId options)
    with step obtain x v where "try_finally x v = (Yielded c, g', w')"
      by (auto split: sum.splits prod.splits if_splits option.splits)
    with tf obtain b ls s where "g' = SuspendedYield b ls s"
      by blast
    with SuspendedStart show ?thesis
      by simp
  next
    case (SuspendedYield b ls s)
    with step have "try_finally (resume parse b ls s) w = (Yielded c, g', w')"
      by simp
    with tf obtain b' ls' s' where
      r: "resume parse b ls s = Suspend c b' ls' s'" and g': "g' = SuspendedYield b' ls' s'"
      by blast
    from r have "length (chunks s') < length (chunks s) \<or>
                 (chunks s' = chunks s \<and> length ls' < length ls)"
      by (auto simp: resume_def split: option.splits dest: fl wl)
    with SuspendedYield g' show ?thesis
      by auto
  next
    case Completed
    with step show ?thesis
      by simp
  qed
qed

text \<open>
  A consumer in general: any sequence of calls of \<^verbatim>\<open>next()\<close>, \<^verbatim>\<open>return()\<close> and
  \<^verbatim>\<open>throw(e)\<close> on the generator.
\<close>

datatype call = Next | Return | ThrowInto error

fun consume ::
  "(jsstring \<Rightarrow> 'n jsonv option) \<Rightarrow> call list \<Rightarrow> generator \<Rightarrow> 'n world \<Rightarrow> generator \<times> 'n world"
where
  "consume parse [] g w = (g, w)"
| "consume parse (Next # calls) g w =
     (case gen_next parse g w of (r, g', w') \<Rightarrow> consume parse calls g' w')"
| "consume parse (Return # calls) g w =
     (case gen_return g w of (g', w') \<Rightarrow> consume parse calls g' w')"
| "consume parse (ThrowInto e # calls) g w =
     (case gen_throw parse e g w of (r, g', w') \<Rightarrow> consume parse calls g' w')"

text \<open>
  The bookkeeping of the reader lock, relative to the counts \<open>a\<close> and \<open>r\<close> when the
  generator was created: nothing obtained before the start, one reader held while suspended
  at a \<^verbatim>\<open>yield\<close>, and after completion either nothing obtained or one reader obtained
  and released.
\<close>

definition balanced :: "nat \<Rightarrow> nat \<Rightarrow> generator \<Rightarrow> 'n world \<Rightarrow> bool" where
  "balanced a r g w =
     (case g of
        SuspendedStart baseUrl threadId runId options \<Rightarrow> acquired w = a \<and> released w = r
      | SuspendedYield buffer lines s \<Rightarrow> acquired w = a + 1 \<and> released w = r
      | Completed \<Rightarrow>
          (acquired w = a \<and> released w = r) \<or> (acquired w = a + 1 \<and> released w = r + 1))"

subsection \<open>The chunks of whole loops\<close>

text \<open>
  All the chunks that one execution of the \<^verbatim>\<open>for\<close> loop yields when it is resumed after
  every \<^verbatim>\<open>yield\<close> until the lines are used up.
\<close>

function for_yields ::
  "(jsstring \<Rightarrow> 'n jsonv option) \<Rightarrow> jsstring \<Rightarrow> jsstring \<Rightarrow> jsstring list \<Rightarrow> 'n StreamChunk list"
where
  "for_yields parse currentEvent currentData lines =
     (case for_loop parse currentEvent currentData lines of
        None \<Rightarrow> []
      | Some (c, lines') \<Rightarrow> c # for_yields parse [] [] lines')"
  by pat_completeness auto
termination
proof (relation "measure (\<lambda>(parse, currentEvent, currentData, lines). length lines)")
  show "wf (measure (\<lambda>(parse :: jsstring \<Rightarrow> 'n jsonv option, currentEvent :: jsstring,
                        currentData :: jsstring, lines :: jsstring list). length lines))"
    by simp
next
  fix parse :: "jsstring \<Rightarrow> 'n jsonv option" and currentEvent currentData lines x2 c lines'
  assume a: "for_loop parse currentEvent currentData lines = Some x2" "(c, lines') = x2"
  have "\<And>ce cd ls. for_loop parse ce cd ls = Some (c, lines') \<Longrightarrow> length lines' < length ls"
  proof -
    fix ce cd ls
    show "for_loop parse ce cd ls = Some (c, lines') \<Longrightarrow> length lines' < length ls"
      by (induction parse ce cd ls rule: for_loop.induct)
         (auto split: if_splits option.splits)
  qed
  with a show "((parse, [], [], lines'), (parse, currentEvent, currentData, lines))
               \<in> measure (\<lambda>(parse, currentEvent, currentData, lines). length lines)"
    by auto
qed

text \<open>
  The complete lines that each read hands to the \<^verbatim>\<open>for\<close> loop, and all the chunks of the
  \<^verbatim>\<open>while\<close> loop, read after read.
\<close>

fun read_lines :: "jsstring \<Rightarrow> jsstring list \<Rightarrow> jsstring list list" where
  "read_lines buffer [] = []"
| "read_lines buffer (v # rest) =
     (let (buffer', lines) = pop (splitLF (buffer @ v)) in lines # read_lines buffer' rest)"

fun while_yields ::
  "(jsstring \<Rightarrow> 'n jsonv option) \<Rightarrow> jsstring \<Rightarrow> jsstring list \<Rightarrow> 'n StreamChunk list"
where
  "while_yields parse buffer [] = []"
| "while_yields parse buffer (v # rest) =
     (let (buffer', lines) = pop (splitLF (buffer @ v))
      in for_yields parse [] [] lines @ while_yields parse buffer' rest)"

subsection \<open>Streams and frames on the wire\<close>

text \<open>
  \<open>delivers w baseUrl threadId runId options s\<close>: in the world \<open>w\<close> the join request is
  answered with a successful status and the body \<open>s\<close>.
\<close>

definition delivers ::
  "'n world \<Rightarrow> jsstring \<Rightarrow> jsstring \<Rightarrow> jsstring \<Rightarrow> join_options option \<Rightarrow> stream \<Rightarrow> bool"
where
  "delivers w baseUrl threadId runId options s =
     (case join_fetch baseUrl threadId runId options w of
        (Inl e, w') \<Rightarrow> False
      | (Inr response, w') \<Rightarrow> ok response \<and> body response = Some s)"

text \<open>
  The text of a frame: its lines, each ended by a line feed, and the blank line that
  terminates the frame. A line of a frame is not blank and contains no line feed.
\<close>

definition frame_text :: "jsstring list \<Rightarrow> jsstring" where
  "frame_text ls = concat (map (\<lambda>l. l @ [LF]) ls) @ [LF]"

definition frame_line :: "jsstring \<Rightarrow> bool" where
  "frame_line l \<longleftrightarrow> l \<noteq> [] \<and> LF \<notin> set l"

text \<open>
  The accumulators after the \<^verbatim>\<open>for\<close> loop has visited lines none of which is blank: the
  last \<^verbatim>\<open>event: \<close> line sets the event name, the last \<^verbatim>\<open>data: \<close> line the payload.
\<close>

fun after_event :: "jsstring \<Rightarrow> jsstring list \<Rightarrow> jsstring" where
  "after_event currentEvent [] = currentEvent"
| "after_event currentEvent (line # lines) =
     after_event (if startsWith line (js ''event: '') then trim (drop 7 line) else currentEvent)
       lines"

fun after_data :: "jsstring \<Rightarrow> jsstring list \<Rightarrow> jsstring" where
  "after_data currentData [] = currentData"
| "after_data currentData (line # lines) =
     after_data (if \<not> startsWith line (js ''event: '') \<and> startsWith line (js ''data: '')
                 then drop 6 line else currentData)
       lines"

section \<open>Test doubles\<close>

text \<open>
  A backend that answers every request through \<open>f\<close> and counts from zero; a response
  with a given status; a stand-in for \<^verbatim>\<open>JSON.parse\<close> that accepts exactly the one-digit
  numbers (on the payloads of the examples below, \<^verbatim>\<open>0\<close>, \<^verbatim>\<open>1\<close>, \<^verbatim>\<open>2\<close> and
  \<^verbatim>\<open>{oops\<close>, it does what \<^verbatim>\<open>JSON.parse\<close> does).
\<close>

definition backend :: "('n request \<Rightarrow> error + 'n response) \<Rightarrow> 'n world" where
  "backend f = \<lparr>respond = f, sent = [], acquired = 0, released = 0\<rparr>"

definition answer :: "nat \<Rightarrow> jsstring \<Rightarrow> stream option \<Rightarrow> nat response" where
  "answer code text b = \<lparr>status = code, statusText = text, json = Inr JNull, body = b\<rparr>"

definition digit_parse :: "jsstring \<Rightarrow> nat jsonv option" where
  "digit_parse s =
     (case s of
        [c] \<Rightarrow> if 0x30 \<le> c \<and> c \<le> 0x39 then Some (JNumber (unat c - 0x30)) else None
      | _ \<Rightarrow> None)"

text \<open>A backend that answers every request with status 200 and the body \<open>s\<close>.\<close>

definition serving :: "stream \<Rightarrow> nat world" where
  "serving s = backend (\<lambda>req. Inr (answer 200 (js ''OK'') (Some s)))"

text \<open>A backend that answers every request with status 500.\<close>

definition failing :: "nat world" where
  "failing = backend (\<lambda>req. Inr (answer 500 (js ''Internal Server Error'') None))"

section \<open>Percent-encoding\<close>





section \<open>The request/response operations\<close>

text \<open>
  C3. When the backend answers the request of \<open>getState\<close> with status 404, the call does
  not raise: it returns the empty thread state, with \<open>values = {messages: []}\<close>,
  \<open>next = []\<close> and \<open>tasks = []\<close>.
\<close>

theorem getState_not_found:
  assumes "encodeURIComponent threadId = Inr tid"
    and "respond w (get (normalized baseUrl @ js ''/threads/'' @ tid @ js ''/state'')) = Inr response"
    and "status response = 404"
  shows "fst (getState baseUrl threadId w) =
           Inr (JObject [(js ''values'', JObject [(js ''messages'', JArray [])]),
                         (js ''next'', JArray []), (js ''tasks'', JArray [])])"
  using assms by (simp add: getState_def fetch_def ok_def emptyState_def)

theorem getState_not_found_witness:
  "encodeURIComponent (js ''thread 1'') = Inr (js ''thread%201'') \<and>
   status (answer 404 (js ''Not Found'') None) = 404 \<and>
   fst (getState (js ''http://localhost:8123/'') (js ''thread 1'')
          (backend (\<lambda>req. Inr (answer 404 (js ''Not Found'') None)))) =
     Inr (JObject [(js ''values'', JObject [(js ''messages'', JArray [])]),
                   (js ''next'', JArray []), (js ''tasks'', JArray [])])"
proof -
  have e: "encodeURIComponent (js ''thread 1'') = Inr (js ''thread%201'')"
    by code_simp
  have s: "status (answer 404 (js ''Not Found'') None) = 404"
    by (simp add: answer_def)
  show ?thesis
    using e s getState_not_found [OF e _ s,
      of "backend (\<lambda>req. Inr (answer 404 (js ''Not Found'') None))" "js ''http://localhost:8123/''"]
    by (simp add: backend_def)
qed



section \<open>Lines and reads\<close>

declare for_yields.simps [simp del]
declare collect.simps [simp del]

lemma for_yields_Nil: "for_yields parse ce cd [] = []"
  by (simp add: for_yields.simps)

lemma for_yields_Cons:
  "for_yields parse ce cd (line # lines) =
     (if startsWith line (js ''event: '') then for_yields parse (trim (drop 7 line)) cd lines
      else if startsWith line (js ''data: '') then for_yields parse ce (drop 6 line) lines
      else if line = [] \<and> cd \<noteq> [] then
        (case parse cd of
           Some d \<Rightarrow> [\<lparr>event = (if ce \<noteq> [] then ce else js ''message''), data = d\<rparr>]
         | None \<Rightarrow> []) @ for_yields parse [] [] lines
      else for_yields parse ce cd lines)"
  by (simp add: for_yields.simps[of parse ce cd "line # lines"]
                for_yields.simps[of parse _ _ lines] split: option.splits)

lemma splitLF_nonempty: "splitLF s \<noteq> []"
  by (induction s) (auto split: list.splits)

lemma splitLF_Cons_other:
  "c \<noteq> LF \<Longrightarrow> splitLF (c # cs) = (c # hd (splitLF cs)) # tl (splitLF cs)"
  using splitLF_nonempty[of cs] by (cases "splitLF cs") auto

lemma splitLF_append:
  "splitLF (xs @ ys) = butlast (splitLF xs) @ splitLF (last (splitLF xs) @ ys)"
proof (induction xs)
  case Nil
  show ?case by simp
next
  case (Cons c xs)
  show ?case
  proof (cases "c = LF")
    case True
    with Cons show ?thesis
      by (simp add: splitLF_nonempty)
  next
    case False
    obtain l ls where s: "splitLF xs = l # ls"
      using splitLF_nonempty[of xs] by (cases "splitLF xs") auto
    show ?thesis
    proof (cases "ls = []")
      case True
      with False s Cons show ?thesis
        by (simp add: splitLF_Cons_other)
    next
      case ne: False
      with False s Cons show ?thesis
        by (simp add: splitLF_Cons_other)
    qed
  qed
qed

lemma splitLF_lines: "l \<in> set (splitLF s) \<Longrightarrow> LF \<notin> set l"
  by (induction s arbitrary: l) (auto split: if_splits list.splits)

lemma splitLF_plain: "LF \<notin> set s \<Longrightarrow> splitLF s = [s]"
  by (induction s) auto

lemma splitLF_line: "LF \<notin> set l \<Longrightarrow> splitLF (l @ LF # rest) = l # splitLF rest"
  by (induction l) auto

lemma last_splitLF: "LF \<notin> set (last (splitLF s))"
  using splitLF_lines[of "last (splitLF s)" s] splitLF_nonempty[of s] by simp

lemma last_splitLF_append:
  "last (splitLF (xs @ ys)) = last (splitLF (last (splitLF xs) @ ys))"
  using splitLF_append[of xs ys] splitLF_nonempty[of "last (splitLF xs) @ ys"] by simp

lemma butlast_splitLF_append:
  "butlast (splitLF (xs @ ys)) =
     butlast (splitLF xs) @ butlast (splitLF (last (splitLF xs) @ ys))"
  using splitLF_append[of xs ys] splitLF_nonempty[of "last (splitLF xs) @ ys"]
  by (simp add: butlast_append)

lemma last_splitLF_LF: "t = [] \<or> last t = LF \<Longrightarrow> last (splitLF t) = []"
proof (cases "t = []")
  case True
  then show ?thesis by simp
next
  case False
  assume "t = [] \<or> last t = LF"
  with False have "t = butlast t @ [LF]"
    using append_butlast_last_id[of t] by simp
  then have "splitLF t = butlast (splitLF (butlast t)) @ splitLF (last (splitLF (butlast t)) @ [LF])"
    using splitLF_append[of "butlast t" "[LF]"] by simp
  also have "splitLF (last (splitLF (butlast t)) @ [LF]) = [last (splitLF (butlast t)), []]"
    using splitLF_line[OF last_splitLF[of "butlast t"], of "[]"] by simp
  finally show ?thesis by simp
qed

lemma splitLF_continue:
  "LF \<notin> set b \<Longrightarrow> splitLF (b @ t) = (b @ hd (splitLF t)) # tl (splitLF t)"
  using splitLF_nonempty[of t] by (induction b) (auto simp: splitLF_Cons_other)

lemma no_blank_continue:
  assumes "LF \<notin> set b" and "[] \<notin> set (butlast (splitLF t))"
  shows "[] \<notin> set (butlast (splitLF (b @ t)))"
proof (cases "tl (splitLF t) = []")
  case True
  with assms(1) show ?thesis
    by (simp add: splitLF_continue)
next
  case False
  then have "butlast (splitLF t) = hd (splitLF t) # butlast (tl (splitLF t))"
    using splitLF_nonempty[of t] by (cases "splitLF t") auto
  with assms False show ?thesis
    by (auto simp: splitLF_continue)
qed

lemma pop_splitLF: "pop (splitLF s) = (last (splitLF s), butlast (splitLF s))"
  by (simp add: pop_def splitLF_nonempty)

lemma concat_read_lines:
  "LF \<notin> set b \<Longrightarrow> concat (read_lines b cs) = butlast (splitLF (b @ concat cs))"
proof (induction cs arbitrary: b)
  case Nil
  then show ?case by (simp add: splitLF_plain)
next
  case (Cons v rest)
  have "splitLF (b @ v @ concat rest) =
          butlast (splitLF (b @ v)) @ splitLF (last (splitLF (b @ v)) @ concat rest)"
    using splitLF_append[of "b @ v" "concat rest"] by simp
  with Cons.IH[OF last_splitLF[of "b @ v"]] show ?case
    by (simp add: pop_splitLF butlast_append splitLF_nonempty)
qed

lemma while_yields_read_lines:
  "while_yields parse b cs = concat (map (for_yields parse [] []) (read_lines b cs))"
  by (induction cs arbitrary: b) (simp_all add: pop_splitLF)

lemma while_yields_append_buffer:
  "LF \<notin> set b \<Longrightarrow>
   while_yields parse b (cs1 @ cs2) =
     while_yields parse b cs1 @ while_yields parse (last (splitLF (b @ concat cs1))) cs2"
proof (induction cs1 arbitrary: b)
  case Nil
  then show ?case by (simp add: splitLF_plain)
next
  case (Cons v rest)
  from Cons.IH[OF last_splitLF[of "b @ v"]] last_splitLF_append[of "b @ v" "concat rest"]
  show ?case
    by (simp add: pop_splitLF)
qed

section \<open>The generator and the whole loops\<close>

lemma for_loop_None: "for_loop parse ce cd ls = None \<Longrightarrow> for_yields parse ce cd ls = []"
  by (simp add: for_yields.simps)

lemma for_loop_Some:
  "for_loop parse ce cd ls = Some (c, ls') \<Longrightarrow>
   for_yields parse ce cd ls = c # for_yields parse [] [] ls'"
  by (simp add: for_yields.simps[of parse ce cd ls])

lemma while_loop_Break:
  "while_loop parse b cs f = Break \<Longrightarrow> while_yields parse b cs = [] \<and> f = None"
  by (induction cs arbitrary: b)
     (auto simp: pop_splitLF for_loop_None split: option.splits)

lemma while_loop_Throw:
  "while_loop parse b cs f = Throw e \<Longrightarrow> while_yields parse b cs = [] \<and> f = Some e"
  by (induction cs arbitrary: b)
     (auto simp: pop_splitLF for_loop_None split: option.splits)

lemma while_loop_Suspend:
  "while_loop parse b cs f = Suspend c b' ls' s' \<Longrightarrow>
   while_yields parse b cs = c # for_yields parse [] [] ls' @ while_yields parse b' (chunks s') \<and>
   failure s' = f"
  by (induction cs arbitrary: b)
     (auto simp: pop_splitLF for_loop_None for_loop_Some split: option.splits)

lemma resume_Suspend:
  assumes "resume parse b ls s = Suspend c b' ls' s'"
  shows "for_yields parse [] [] ls @ while_yields parse b (chunks s) =
           c # for_yields parse [] [] ls' @ while_yields parse b' (chunks s') \<and>
         failure s' = failure s"
proof (cases "for_loop parse [] [] ls")
  case None
  with assms show ?thesis
    by (simp add: resume_def for_loop_None while_loop_Suspend)
next
  case (Some a)
  with assms show ?thesis
    by (cases a) (simp add: resume_def for_loop_Some)
qed

lemma resume_Break:
  assumes "resume parse b ls s = Break"
  shows "for_yields parse [] [] ls @ while_yields parse b (chunks s) = [] \<and> failure s = None"
  using assms
  by (auto simp: resume_def for_loop_None dest: while_loop_Break split: option.splits)

lemma resume_Throw:
  assumes "resume parse b ls s = Throw e"
  shows "for_yields parse [] [] ls @ while_yields parse b (chunks s) = [] \<and> failure s = Some e"
  using assms
  by (auto simp: resume_def for_loop_None dest: while_loop_Throw split: option.splits)

lemma collect_suspended:
  "collect parse (SuspendedYield b ls s) w =
     (for_yields parse [] [] ls @ while_yields parse b (chunks s), failure s, releaseLock w)"
proof (induction parse "SuspendedYield b ls s" w arbitrary: b ls s rule: collect.induct)
  case (1 parse w)
  show ?case
  proof (cases "resume parse b ls s")
    case (Suspend c b' ls' s')
    then have n: "gen_next parse (SuspendedYield b ls s) w = (Yielded c, SuspendedYield b' ls' s', w)"
      by simp
    from "1"[OF n[symmetric] refl refl]
    have "collect parse (SuspendedYield b' ls' s') w =
            (for_yields parse [] [] ls' @ while_yields parse b' (chunks s'), failure s',
             releaseLock w)" .
    with n resume_Suspend[OF Suspend] show ?thesis
      by (simp add: collect.simps[of parse "SuspendedYield b ls s" w])
  next
    case Break
    with resume_Break[OF Break] show ?thesis
      by (simp add: collect.simps[of parse "SuspendedYield b ls s" w])
  next
    case (Throw e)
    with resume_Throw[OF Throw] show ?thesis
      by (simp add: collect.simps[of parse "SuspendedYield b ls s" w])
  qed
qed

lemma collect_delivers:
  assumes "delivers w baseUrl threadId runId options s"
  shows "collect parse (joinStream baseUrl threadId runId options) w =
           (while_yields parse [] (chunks s), failure s,
            releaseLock (getReader (snd (join_fetch baseUrl threadId runId options w))))"
proof -
  obtain response w' where
    f: "join_fetch baseUrl threadId runId options w = (Inr response, w')"
    and o: "ok response" and b: "body response = Some s"
    using assms
    by (auto simp: delivers_def split: prod.splits sum.splits)
  show ?thesis
  proof (cases "while_loop parse [] (chunks s) (failure s)")
    case (Suspend c b' ls' s')
    with f o b while_loop_Suspend[OF Suspend] show ?thesis
      by (simp add: joinStream_def collect_suspended
            collect.simps[of parse "SuspendedStart baseUrl threadId runId options" w])
  next
    case Break
    with f o b while_loop_Break[OF Break] show ?thesis
      by (simp add: joinStream_def
            collect.simps[of parse "SuspendedStart baseUrl threadId runId options" w])
  next
    case (Throw e)
    with f o b while_loop_Throw[OF Throw] show ?thesis
      by (simp add: joinStream_def
            collect.simps[of parse "SuspendedStart baseUrl threadId runId options" w])
  qed
qed

text \<open>
  The test doubles: the backend \<open>serving s\<close> delivers \<open>s\<close>, and the ids used in the
  examples are their own percent-encoding.
\<close>

lemma delivers_serving:
  "encodeURIComponent threadId = Inr tid \<Longrightarrow> encodeURIComponent runId = Inr rid \<Longrightarrow>
   delivers (serving s) baseUrl threadId runId options s"
  by (simp add: delivers_def join_fetch_def fetch_def serving_def backend_def answer_def ok_def)

lemma ids: "encodeURIComponent (js ''t'') = Inr (js ''t'')" "encodeURIComponent (js ''r'') = Inr (js ''r'')"
  by code_simp+

lemma served:
  "fst (collect digit_parse (joinStream (js ''http://h'') (js ''t'') (js ''r'') None) (serving s)) =
     while_yields digit_parse [] (chunks s)"
  by (simp add: collect_delivers[OF delivers_serving[OF ids]])

lemmas eval = pop_def LF_def js_def startsWith_def for_yields_Nil for_yields_Cons digit_parse_def
  trim_def isWhiteSpace_def

section \<open>The reader lock\<close>

lemma join_fetch_counts:
  "join_fetch baseUrl threadId runId options w = (x, w') \<Longrightarrow>
   acquired w' = acquired w \<and> released w' = released w"
  by (auto simp: join_fetch_def fetch_def split: sum.splits)

lemma try_finally_balanced:
  assumes "try_finally x w = (r, g', w')" and "acquired w = a + 1" and "released w = k"
  shows "balanced a k g' w'"
  using assms by (cases x) (auto simp: balanced_def releaseLock_def)

lemma gen_next_balanced:
  assumes "gen_next parse g w = (x, g', w')" and "balanced a r g w"
  shows "balanced a r g' w'"
proof (cases g)
  case (SuspendedStart baseUrl threadId runId options)
  obtain y v where f: "join_fetch baseUrl threadId runId options w = (y, v)"
    by (cases "join_fetch baseUrl threadId runId options w")
  from join_fetch_counts[OF f] assms(2) SuspendedStart
  have v: "acquired v = a" "released v = r"
    by (simp_all add: balanced_def)
  show ?thesis
  proof (cases y)
    case (Inl e)
    with assms(1) SuspendedStart f v show ?thesis
      by (auto simp: balanced_def)
  next
    case (Inr response)
    show ?thesis
    proof (cases "ok response \<and> body response \<noteq> None")
      case False
      with assms(1) SuspendedStart f v Inr show ?thesis
        by (auto simp: balanced_def split: if_splits)
    next
      case True
      then obtain s where s: "body response = Some s"
        by auto
      with True assms(1) SuspendedStart f Inr
      have "try_finally (while_loop parse [] (chunks s) (failure s)) (getReader v) = (x, g', w')"
        by simp
      from try_finally_balanced[OF this, of a r] v show ?thesis
        by (simp add: getReader_def)
    qed
  qed
next
  case (SuspendedYield buffer lines s)
  with assms have "try_finally (resume parse buffer lines s) w = (x, g', w')"
    and "acquired w = a + 1" and "released w = r"
    by (simp_all add: balanced_def)
  then show ?thesis
    by (rule try_finally_balanced)
next
  case Completed
  with assms show ?thesis
    by (auto simp: balanced_def)
qed

lemma gen_return_balanced:
  "gen_return g w = (g', w') \<Longrightarrow> balanced a r g w \<Longrightarrow> balanced a r g' w'"
  by (cases g) (auto simp: balanced_def releaseLock_def)

lemma gen_throw_balanced:
  assumes "gen_throw parse e g w = (x, g', w')" and "balanced a r g w"
  shows "balanced a r g' w'"
proof (cases g)
  case (SuspendedStart baseUrl threadId runId options)
  with assms show ?thesis
    by (auto simp: balanced_def)
next
  case (SuspendedYield buffer lines s)
  with assms have "try_finally (resume parse buffer lines s) w = (x, g', w')"
    and "acquired w = a + 1" and "released w = r"
    by (simp_all add: balanced_def)
  then show ?thesis
    by (rule try_finally_balanced)
next
  case Completed
  with assms show ?thesis
    by (auto simp: balanced_def)
qed

lemma consume_balanced:
  "consume parse calls g w = (g', w') \<Longrightarrow> balanced a r g w \<Longrightarrow> balanced a r g' w'"
proof (induction calls arbitrary: g w)
  case Nil
  then show ?case by simp
next
  case (Cons c calls)
  show ?case
  proof (cases c)
    case Next
    obtain x g1 w1 where n: "gen_next parse g w = (x, g1, w1)"
      by (cases "gen_next parse g w") auto
    with Cons.prems Next have "consume parse calls g1 w1 = (g', w')"
      by simp
    from Cons.IH[OF this gen_next_balanced[OF n Cons.prems(2)]] show ?thesis .
  next
    case Return
    obtain g1 w1 where n: "gen_return g w = (g1, w1)"
      by (cases "gen_return g w") auto
    with Cons.prems Return have "consume parse calls g1 w1 = (g', w')"
      by simp
    from Cons.IH[OF this gen_return_balanced[OF n Cons.prems(2)]] show ?thesis .
  next
    case (ThrowInto e)
    obtain x g1 w1 where n: "gen_throw parse e g w = (x, g1, w1)"
      by (cases "gen_throw parse e g w") auto
    with Cons.prems ThrowInto have "consume parse calls g1 w1 = (g', w')"
      by simp
    from Cons.IH[OF this gen_throw_balanced[OF n Cons.prems(2)]] show ?thesis .
  qed
qed

lemma consume_append:
  "consume parse (xs @ ys) g w =
     (case consume parse xs g w of (g', w') \<Rightarrow> consume parse ys g' w')"
proof (induction xs arbitrary: g w)
  case Nil
  show ?case by simp
next
  case (Cons c xs)
  then show ?case
    by (cases c) (simp_all split: prod.splits)
qed

lemma gen_return_Completed: "fst (gen_return g w) = Completed"
  by (cases g) simp_all

section \<open>Text without a blank line\<close>

lemma for_yields_no_blank: "[] \<notin> set ls \<Longrightarrow> for_yields parse ce cd ls = []"
  by (induction ls arbitrary: ce cd) (auto simp: for_yields_Nil for_yields_Cons)

lemma for_yields_tail_no_blank:
  "[] \<notin> set tail \<Longrightarrow> for_yields parse ce cd (ls @ tail) = for_yields parse ce cd ls"
  by (induction ls arbitrary: ce cd)
     (auto simp: for_yields_Nil for_yields_Cons for_yields_no_blank)

lemma while_yields_lines_no_blank:
  assumes "LF \<notin> set b" and "[] \<notin> set (butlast (splitLF (b @ concat cs)))"
  shows "while_yields parse b cs = []"
proof -
  have "[] \<notin> set (concat (read_lines b cs))"
    using concat_read_lines[OF assms(1), of cs] assms(2) by simp
  then have "\<forall>g \<in> set (read_lines b cs). for_yields parse [] [] g = []"
    by (auto intro: for_yields_no_blank)
  then show ?thesis
    by (simp add: while_yields_read_lines)
qed

lemma while_yields_cut:
  assumes "LF \<notin> set b" and "[] \<notin> set (butlast (splitLF (y @ concat later)))"
  shows "while_yields parse b ((x @ y) # later) = while_yields parse b [x]"
proof -
  let ?r = "last (splitLF (b @ x))"
  have r: "LF \<notin> set ?r"
    by (rule last_splitLF)
  from no_blank_continue[OF r assms(2)]
  have "[] \<notin> set (butlast (splitLF (?r @ y @ concat later)))"
    by simp
  moreover have "butlast (splitLF (?r @ y @ concat later)) =
      butlast (splitLF (?r @ y)) @ butlast (splitLF (last (splitLF (?r @ y)) @ concat later))"
    using butlast_splitLF_append[of "?r @ y" "concat later"] by simp
  ultimately have nb: "[] \<notin> set (butlast (splitLF (?r @ y)))"
    and nm: "[] \<notin> set (butlast (splitLF (last (splitLF (?r @ y)) @ concat later)))"
    by simp_all
  have l: "butlast (splitLF (b @ x @ y)) = butlast (splitLF (b @ x)) @ butlast (splitLF (?r @ y))"
    using butlast_splitLF_append[of "b @ x" y] by simp
  have e: "last (splitLF (b @ x @ y)) = last (splitLF (?r @ y))"
    using last_splitLF_append[of "b @ x" y] by simp
  have "while_yields parse (last (splitLF (?r @ y))) later = []"
    by (rule while_yields_lines_no_blank[OF last_splitLF nm])
  with nb show ?thesis
    by (simp add: pop_splitLF l e for_yields_tail_no_blank)
qed

section \<open>Frames\<close>


lemma data_line:
  "startsWith (js ''data: '' @ d) (js ''data: '')" "drop 6 (js ''data: '' @ d) = d"
  "\<not> startsWith (js ''data: '' @ d) (js ''event: '')"
  by (simp_all add: startsWith_def js_def)

lemma blank_line:
  "\<not> startsWith [] (js ''data: '')" "\<not> startsWith [] (js ''event: '')"
  by (simp_all add: startsWith_def js_def)

lemma for_yields_blank:
  "for_yields parse ce cd ([] # rest) =
     (if cd \<noteq> [] then
        (case parse cd of
           Some d \<Rightarrow> [\<lparr>event = (if ce \<noteq> [] then ce else js ''message''), data = d\<rparr>]
         | None \<Rightarrow> []) @ for_yields parse [] [] rest
      else for_yields parse ce cd rest)"
  by (simp add: for_yields_Cons blank_line)

lemma for_yields_lines:
  "[] \<notin> set ls \<Longrightarrow>
   for_yields parse ce cd (ls @ rest) =
     for_yields parse (after_event ce ls) (after_data cd ls) rest"
  by (induction ls arbitrary: ce cd) (auto simp: for_yields_Cons)


lemma after_data_append: "after_data cd (xs @ ys) = after_data (after_data cd xs) ys"
  by (induction xs arbitrary: cd) simp_all


lemma after_data_none:
  "\<forall>l \<in> set ls. \<not> startsWith l (js ''data: '') \<Longrightarrow> after_data cd ls = cd"
  by (induction ls arbitrary: cd) simp_all


lemma after_data_last:
  "\<forall>l \<in> set post. \<not> startsWith l (js ''data: '') \<Longrightarrow>
   after_data cd (pre @ [js ''data: '' @ d] @ post) = d"
  by (simp add: after_data_append after_data_none data_line del: drop_append)

lemma splitLF_frame_text:
  "\<forall>l \<in> set ls. LF \<notin> set l \<Longrightarrow> splitLF (frame_text ls @ t) = ls @ [] # splitLF t"
  by (induction ls) (simp_all add: frame_text_def splitLF_line)

lemma whole_frames_lines:
  "\<forall>ls \<in> set fs. \<forall>l \<in> set ls. LF \<notin> set l \<Longrightarrow>
   splitLF (concat (map frame_text fs) @ t) = concat (map (\<lambda>ls. ls @ [[]]) fs) @ splitLF t"
  by (induction fs) (simp_all add: splitLF_frame_text)

lemma whole_frames_for:
  "\<forall>ls \<in> set fs. [] \<notin> set ls \<and> after_data [] ls \<noteq> [] \<Longrightarrow>
   for_yields parse [] [] (concat (map (\<lambda>ls. ls @ [[]]) fs) @ rest) =
     concat (map (\<lambda>ls. case parse (after_data [] ls) of
                          None \<Rightarrow> []
                        | Some v \<Rightarrow>
                            [\<lparr>event = (if after_event [] ls \<noteq> [] then after_event [] ls
                                       else js ''message''),
                              data = v\<rparr>]) fs) @
     for_yields parse [] [] rest"
proof (induction fs)
  case Nil
  show ?case by simp
next
  case (Cons ls fs)
  then have "[] \<notin> set ls" and d: "after_data [] ls \<noteq> []"
    by simp_all
  from for_yields_lines[OF this(1), of parse "[]" "[]"
      "[] # concat (map (\<lambda>ls. ls @ [[]]) fs) @ rest"] d Cons
  show ?case
    by (simp add: for_yields_blank split: option.splits)
qed

lemma while_yields_whole_frames:
  assumes "\<forall>ls \<in> set fs. (\<forall>l \<in> set ls. frame_line l) \<and> after_data [] ls \<noteq> []"
  shows "while_yields parse [] ((concat (map frame_text fs) @ y) # after) =
           concat (map (\<lambda>ls. case parse (after_data [] ls) of
                                None \<Rightarrow> []
                              | Some v \<Rightarrow>
                                  [\<lparr>event = (if after_event [] ls \<noteq> [] then after_event [] ls
                                             else js ''message''),
                                    data = v\<rparr>]) fs) @
           while_yields parse [] (y # after)"
proof -
  from assms have n: "\<forall>ls \<in> set fs. \<forall>l \<in> set ls. LF \<notin> set l"
    and b: "\<forall>ls \<in> set fs. [] \<notin> set ls \<and> after_data [] ls \<noteq> []"
    by (auto simp: frame_line_def)
  have "butlast (concat (map (\<lambda>ls. ls @ [[]]) fs) @ splitLF y) =
          concat (map (\<lambda>ls. ls @ [[]]) fs) @ butlast (splitLF y)"
    by (simp add: butlast_append splitLF_nonempty)
  with whole_frames_lines[OF n, of y] whole_frames_for[OF b, of parse "butlast (splitLF y)"]
  show ?thesis
    by (simp add: pop_def splitLF_nonempty)
qed

lemma frame_within_read:
  assumes "concat before = [] \<or> last (concat before) = LF"
    and "\<forall>ls \<in> set fs. (\<forall>l \<in> set ls. frame_line l) \<and> after_data [] ls \<noteq> []"
    and "\<forall>l \<in> set ls. frame_line l" and "after_data [] ls \<noteq> []"
  shows "while_yields parse [] (before @ [concat (map frame_text fs) @ frame_text ls @ y] @ after) =
           while_yields parse [] (before @ [concat (map frame_text fs)]) @
           (case parse (after_data [] ls) of
              None \<Rightarrow> []
            | Some v \<Rightarrow>
                [\<lparr>event = (if after_event [] ls \<noteq> [] then after_event [] ls else js ''message''),
                  data = v\<rparr>]) @
           while_yields parse [] ([y] @ after)"
proof -
  have e: "last (splitLF ([] @ concat before)) = []"
    using last_splitLF_LF[OF assms(1)] by simp
  from assms(2,3,4)
  have a: "\<forall>ls \<in> set (fs @ [ls]). (\<forall>l \<in> set ls. frame_line l) \<and> after_data [] ls \<noteq> []"
    by simp
  have "while_yields parse [] ((concat (map frame_text (fs @ [ls])) @ y) # after) =
          concat (map (\<lambda>ls. case parse (after_data [] ls) of
                                None \<Rightarrow> []
                              | Some v \<Rightarrow>
                                  [\<lparr>event = (if after_event [] ls \<noteq> [] then after_event [] ls
                                             else js ''message''),
                                    data = v\<rparr>]) (fs @ [ls])) @
          while_yields parse [] (y # after)"
    by (rule while_yields_whole_frames[OF a])
  moreover have "while_yields parse [] ((concat (map frame_text fs) @ []) # []) =
          concat (map (\<lambda>ls. case parse (after_data [] ls) of
                                None \<Rightarrow> []
                              | Some v \<Rightarrow>
                                  [\<lparr>event = (if after_event [] ls \<noteq> [] then after_event [] ls
                                             else js ''message''),
                                    data = v\<rparr>]) fs) @
          while_yields parse [] ([] # [])"
    by (rule while_yields_whole_frames[OF assms(2)])
  moreover have "while_yields parse [] ([] # []) = []"
    by (simp add: pop_def for_yields_Nil)
  ultimately show ?thesis
    using while_yields_append_buffer[of "[]" parse before
            "[concat (map frame_text fs) @ frame_text ls @ y] @ after"]
      while_yields_append_buffer[of "[]" parse before "[concat (map frame_text fs)]"] e
    by (simp del: while_yields.simps)
qed

lemma after_data_suffix:
  assumes "xs @ g = pre @ [js ''data: '' @ d] @ post"
    and "\<forall>l \<in> set post. \<not> startsWith l (js ''data: '')"
  shows "after_data [] g = [] \<or> after_data [] g = d"
proof -
  from assms(1) obtain us where
    "(xs = pre @ us \<and> us @ g = [js ''data: '' @ d] @ post) \<or>
     (xs @ us = pre \<and> g = us @ [js ''data: '' @ d] @ post)"
    by (auto simp: append_eq_append_conv2)
  then show ?thesis
  proof
    assume a: "xs = pre @ us \<and> us @ g = [js ''data: '' @ d] @ post"
    show ?thesis
    proof (cases us)
      case Nil
      with a have "g = [] @ [js ''data: '' @ d] @ post"
        by simp
      with after_data_last[OF assms(2), of "[]" "[]" d] show ?thesis
        by simp
    next
      case (Cons u us')
      with a have "post = us' @ g"
        by simp
      with assms(2) have "\<forall>l \<in> set g. \<not> startsWith l (js ''data: '')"
        by simp
      then show ?thesis
        by (simp add: after_data_none)
    qed
  next
    assume "xs @ us = pre \<and> g = us @ [js ''data: '' @ d] @ post"
    with after_data_last[OF assms(2), of "[]" us d] show ?thesis
      by simp
  qed
qed

lemma frame_group:
  assumes "\<forall>l \<in> set ls. frame_line l"
    and "ls = pre @ [js ''data: '' @ d] @ post"
    and "\<forall>l \<in> set post. \<not> startsWith l (js ''data: '')"
    and "xs @ g @ ys = ls @ [[]]"
  shows "\<forall>c \<in> set (for_yields parse [] [] g). parse d = Some (data c)"
proof (cases "[] \<in> set g")
  case False
  then show ?thesis
    by (simp add: for_yields_no_blank)
next
  case True
  from assms(1) have nb: "[] \<notin> set ls"
    by (auto simp: frame_line_def)
  have ys: "ys = []"
  proof (rule ccontr)
    assume "ys \<noteq> []"
    then have "ys = butlast ys @ [last ys]"
      by simp
    with assms(4) have "(xs @ g @ butlast ys) @ [last ys] = ls @ [[]]"
      by (metis append.assoc)
    then have "xs @ g @ butlast ys = ls"
      by simp
    with True nb show False
      by auto
  qed
  from True have "g = butlast g @ [last g]"
    by (cases "g = []") simp_all
  with assms(4) ys have "(xs @ butlast g) @ [last g] = ls @ [[]]"
    by (metis append.assoc append_Nil2)
  then have g: "xs @ butlast g = ls" "last g = []"
    by simp_all
  with \<open>g = butlast g @ [last g]\<close> have split: "g = butlast g @ [[]]"
    by simp
  from g(1) nb have "[] \<notin> set (butlast g)"
    by auto
  from for_yields_lines[OF this, of parse "[]" "[]" "[[]]"] split
  have y: "for_yields parse [] [] g =
             for_yields parse (after_event [] (butlast g)) (after_data [] (butlast g)) [[]]"
    by simp
  from g(1) assms(2) have "xs @ butlast g = pre @ [js ''data: '' @ d] @ post"
    by simp
  from after_data_suffix[OF this assms(3)] show ?thesis
    by (auto simp: y for_yields_blank for_yields_Nil split: option.splits)
qed

lemma concat_member: "g \<in> set gs \<Longrightarrow> \<exists>xs ys. concat gs = xs @ g @ ys"
proof -
  assume "g \<in> set gs"
  then obtain as bs where "gs = as @ g # bs"
    by (auto dest: split_list)
  then have "concat gs = concat as @ g @ concat bs"
    by simp
  then show ?thesis
    by blast
qed

lemma frame_any_reads:
  assumes "\<forall>l \<in> set ls. frame_line l"
    and "ls = pre @ [js ''data: '' @ d] @ post"
    and "\<forall>l \<in> set post. \<not> startsWith l (js ''data: '')"
    and "concat reads = frame_text ls"
  shows "\<forall>c \<in> set (while_yields parse [] reads). parse d = Some (data c)"
proof
  fix c
  assume "c \<in> set (while_yields parse [] reads)"
  then obtain g where g: "g \<in> set (read_lines [] reads)" and c: "c \<in> set (for_yields parse [] [] g)"
    by (auto simp: while_yields_read_lines)
  from assms(1) have "\<forall>l \<in> set ls. LF \<notin> set l"
    by (simp add: frame_line_def)
  from splitLF_frame_text[OF this, of "[]"] have "splitLF (frame_text ls) = ls @ [[], []]"
    by simp
  with concat_read_lines[of "[]" reads] assms(4) have "concat (read_lines [] reads) = ls @ [[]]"
    by (simp add: butlast_append)
  with concat_member[OF g] obtain xs ys where "xs @ g @ ys = ls @ [[]]"
    by metis
  from frame_group[OF assms(1,2,3) this, of parse] c show "parse d = Some (data c)"
    by blast
qed

text \<open>
  Reads that each carry whole frames: every frame whose payload parses yields its chunk, in
  order, a frame whose payload does not parse yields nothing, and the iteration ends without
  an error.
\<close>

lemma whole_frames_decoded:
  assumes "delivers w baseUrl threadId runId options
             \<lparr>chunks = map (\<lambda>fs. concat (map frame_text fs)) groups, failure = None\<rparr>"
    and "\<forall>ls \<in> set (concat groups). (\<forall>l \<in> set ls. frame_line l) \<and> after_data [] ls \<noteq> []"
  shows "collect parse (joinStream baseUrl threadId runId options) w =
           (concat (map (\<lambda>ls. case parse (after_data [] ls) of
                                None \<Rightarrow> []
                              | Some v \<Rightarrow>
                                  [\<lparr>event = (if after_event [] ls \<noteq> [] then after_event [] ls
                                             else js ''message''),
                                    data = v\<rparr>]) (concat groups)),
            None,
            releaseLock (getReader (snd (join_fetch baseUrl threadId runId options w))))"
proof -
  have "\<forall>ls \<in> set (concat groups). (\<forall>l \<in> set ls. frame_line l) \<and> after_data [] ls \<noteq> [] \<Longrightarrow>
        while_yields parse [] (map (\<lambda>fs. concat (map frame_text fs)) groups) =
          concat (map (\<lambda>ls. case parse (after_data [] ls) of
                                None \<Rightarrow> []
                              | Some v \<Rightarrow>
                                  [\<lparr>event = (if after_event [] ls \<noteq> [] then after_event [] ls
                                             else js ''message''),
                                    data = v\<rparr>]) (concat groups))"
  proof (induction groups)
    case Nil
    show ?case by simp
  next
    case (Cons fs groups)
    then have n: "\<forall>ls \<in> set fs. \<forall>l \<in> set ls. LF \<notin> set l"
      and b: "\<forall>ls \<in> set fs. [] \<notin> set ls \<and> after_data [] ls \<noteq> []"
      by (auto simp: frame_line_def)
    from whole_frames_lines[OF n, of "[]"]
    have "pop (splitLF ([] @ concat (map frame_text fs))) =
            ([], concat (map (\<lambda>ls. ls @ [[]]) fs))"
      by (simp add: pop_def)
    moreover from Cons.prems have
      "\<forall>ls \<in> set (concat groups). (\<forall>l \<in> set ls. frame_line l) \<and> after_data [] ls \<noteq> []"
      by auto
    note Cons.IH[OF this]
    ultimately show ?case
      using whole_frames_for[OF b, of parse "[]"]
      by (simp add: for_yields_Nil)
  qed
  with assms(2) show ?thesis
    by (simp add: collect_delivers[OF assms(1)])
qed

section \<open>The stream of a run\<close>

text \<open>
  C8. When the join request is answered with a successful status and the response has no
  body, iterating the generator yields no chunk and ends normally; no reader is obtained.
\<close>

theorem no_body_empty_sequence:
  assumes "join_fetch baseUrl threadId runId options w = (Inr response, w')"
    and "ok response"
    and "body response = None"
  shows "collect parse (joinStream baseUrl threadId runId options) w = ([], None, w') \<and>
         acquired w' = acquired w"
proof -
  from assms(1) have "acquired w' = acquired w"
    by (auto simp: join_fetch_def fetch_def split: sum.splits)
  with assms show ?thesis
    by (simp add: joinStream_def
          collect.simps[of parse "SuspendedStart baseUrl threadId runId options" w])
qed

theorem no_body_empty_sequence_witness:
  "ok (answer 200 (js ''OK'') None) \<and> body (answer 200 (js ''OK'') None) = None \<and>
   fst (collect digit_parse (joinStream (js ''http://h'') (js ''t'') (js ''r'') None)
          (backend (\<lambda>req. Inr (answer 200 (js ''OK'') None)))) = [] \<and>
   fst (snd (collect digit_parse (joinStream (js ''http://h'') (js ''t'') (js ''r'') None)
          (backend (\<lambda>req. Inr (answer 200 (js ''OK'') None))))) = None"
proof -
  have t: "encodeURIComponent (js ''t'') = Inr (js ''t'')"
    and r: "encodeURIComponent (js ''r'') = Inr (js ''r'')"
    by code_simp+
  have o: "ok (answer 200 (js ''OK'') None)"
    and b: "body (answer 200 (js ''OK'') None) = None"
    by (simp_all add: ok_def answer_def)
  have f: "join_fetch (js ''http://h'') (js ''t'') (js ''r'') None
             (backend (\<lambda>req. Inr (answer 200 (js ''OK'') None))) =
           (Inr (answer 200 (js ''OK'') None),
            snd (join_fetch (js ''http://h'') (js ''t'') (js ''r'') None
                   (backend (\<lambda>req. Inr (answer 200 (js ''OK'') None)))))"
    by (simp add: join_fetch_def t r fetch_def backend_def)
  show ?thesis
    using o b no_body_empty_sequence [OF f o b, of digit_parse]
    by simp
qed

text \<open>
  C4. A response whose status is not successful makes \<open>getHistory\<close>, \<open>list\<close> and the
  first pull of \<open>joinStream\<close> raise an error that carries the status text, and \<open>getState\<close>
  too unless the status is 404; the iteration of \<open>joinStream\<close> yields no chunk.
\<close>

theorem non_success_raises:
  assumes "\<not> ok response" and "encodeURIComponent threadId = Inr tid"
  shows
    "(respond w (get (normalized baseUrl @ js ''/threads/'' @ tid @ js ''/history?limit='' @
                      toString (case options of
                                  None \<Rightarrow> 100
                                | Some opts \<Rightarrow> (case limit opts of None \<Rightarrow> 100 | Some n \<Rightarrow> n))))
        = Inr response \<longrightarrow>
      fst (getHistory baseUrl threadId options w) =
        Inl (Error (js ''Failed to fetch history: '' @ statusText response))) \<and>
     (respond w (get (normalized baseUrl @ js ''/runs?thread_id='' @ tid)) = Inr response \<longrightarrow>
      fst (list baseUrl threadId w) =
        Inl (Error (js ''Failed to list runs: '' @ statusText response))) \<and>
     (join_fetch baseUrl threadId runId joinOptions w = (Inr response, w') \<longrightarrow>
      collect parse (joinStream baseUrl threadId runId joinOptions) w =
        ([], Some (Error (js ''Failed to join stream: '' @ statusText response)), w')) \<and>
     (respond w (get (normalized baseUrl @ js ''/threads/'' @ tid @ js ''/state'')) = Inr response \<and>
      status response \<noteq> 404 \<longrightarrow>
      fst (getState baseUrl threadId w) =
        Inl (Error (js ''Failed to fetch state: '' @ statusText response)))"
  using assms
  by (simp add: getHistory_def list_def getState_def fetch_def Let_def joinStream_def
        collect.simps[of parse "SuspendedStart baseUrl threadId runId joinOptions" w])

theorem non_success_raises_witness:
  "\<not> ok (answer 500 (js ''Internal Server Error'') None) \<and>
   status (answer 500 (js ''Internal Server Error'') None) \<noteq> 404 \<and>
   fst (getHistory (js ''http://h'') (js ''t'') None failing) =
     Inl (Error (js ''Failed to fetch history: Internal Server Error'')) \<and>
   fst (list (js ''http://h'') (js ''t'') failing) =
     Inl (Error (js ''Failed to list runs: Internal Server Error'')) \<and>
   fst (collect digit_parse (joinStream (js ''http://h'') (js ''t'') (js ''r'') None) failing) = [] \<and>
   fst (snd (collect digit_parse (joinStream (js ''http://h'') (js ''t'') (js ''r'') None) failing)) =
     Some (Error (js ''Failed to join stream: Internal Server Error'')) \<and>
   fst (getState (js ''http://h'') (js ''t'') failing) =
     Inl (Error (js ''Failed to fetch state: Internal Server Error''))"
proof -
  have o: "\<not> ok (answer 500 (js ''Internal Server Error'') None)"
    by (simp add: ok_def answer_def)
  have s: "status (answer 500 (js ''Internal Server Error'') None) \<noteq> 404"
    and t: "statusText (answer 500 (js ''Internal Server Error'') None) =
              js ''Internal Server Error''"
    by (simp_all add: answer_def)
  have r: "respond failing = (\<lambda>req. Inr (answer 500 (js ''Internal Server Error'') None))"
    by (simp add: failing_def backend_def)
  obtain w' where f: "join_fetch (js ''http://h'') (js ''t'') (js ''r'') None failing =
             (Inr (answer 500 (js ''Internal Server Error'') None), w')"
    by (simp add: join_fetch_def ids fetch_def r)
  have m: "js ''Failed to fetch history: '' @ js ''Internal Server Error'' =
             js ''Failed to fetch history: Internal Server Error''"
          "js ''Failed to list runs: '' @ js ''Internal Server Error'' =
             js ''Failed to list runs: Internal Server Error''"
          "js ''Failed to join stream: '' @ js ''Internal Server Error'' =
             js ''Failed to join stream: Internal Server Error''"
          "js ''Failed to fetch state: '' @ js ''Internal Server Error'' =
             js ''Failed to fetch state: Internal Server Error''"
    by (simp_all add: js_def)
  show ?thesis
    using o s
      non_success_raises [OF o ids(1), of failing "js ''http://h''" None "js ''r''" None
        w' digit_parse]
    by (simp add: r f t m)
qed

text \<open>
  C2. Whatever the consumer calls on the generator (\<^verbatim>\<open>next()\<close>, \<^verbatim>\<open>return()\<close>,
  \<^verbatim>\<open>throw(e)\<close>, in any order and number), a reader is obtained at most once and released
  at most once; it is not released while the generator is suspended; and once the generator
  has completed after obtaining a reader, the reader has been released exactly once.
  Abandoning the generator with \<^verbatim>\<open>return()\<close> completes it, and an iteration run to the
  end of a delivered body (completion or a failed read) obtains one reader and releases it
  once.
\<close>

theorem reader_released_once:
  assumes "consume parse calls (joinStream baseUrl threadId runId options) w = (g, w')"
  shows "(g = Completed \<and> acquired w' = acquired w + 1 \<longrightarrow> released w' = released w + 1) \<and>
         (g \<noteq> Completed \<longrightarrow> released w' = released w) \<and>
         (acquired w' = acquired w \<longrightarrow> released w' = released w) \<and>
         released w' \<le> released w + 1 \<and>
         acquired w' \<le> acquired w + 1 \<and>
         fst (consume parse (calls @ [Return]) (joinStream baseUrl threadId runId options) w) =
           Completed \<and>
         (delivers w baseUrl threadId runId options s \<longrightarrow>
            acquired (snd (snd (collect parse (joinStream baseUrl threadId runId options) w))) =
              acquired w + 1 \<and>
            released (snd (snd (collect parse (joinStream baseUrl threadId runId options) w))) =
              released w + 1)"
proof -
  have "balanced (acquired w) (released w) (joinStream baseUrl threadId runId options) w"
    by (simp add: balanced_def joinStream_def)
  from consume_balanced[OF assms this]
  have a: "(g = Completed \<and> acquired w' = acquired w + 1 \<longrightarrow> released w' = released w + 1) \<and>
         (g \<noteq> Completed \<longrightarrow> released w' = released w) \<and>
         (acquired w' = acquired w \<longrightarrow> released w' = released w) \<and>
         released w' \<le> released w + 1 \<and>
         acquired w' \<le> acquired w + 1"
    by (cases g) (auto simp: balanced_def)
  have b: "fst (consume parse (calls @ [Return]) (joinStream baseUrl threadId runId options) w) =
           Completed"
    using gen_return_Completed[of g w'] by (auto simp: consume_append assms split: prod.splits)
  have c: "delivers w baseUrl threadId runId options s \<longrightarrow>
            acquired (snd (snd (collect parse (joinStream baseUrl threadId runId options) w))) =
              acquired w + 1 \<and>
            released (snd (snd (collect parse (joinStream baseUrl threadId runId options) w))) =
              released w + 1"
  proof
    assume d: "delivers w baseUrl threadId runId options s"
    obtain x v where f: "join_fetch baseUrl threadId runId options w = (x, v)"
      by (cases "join_fetch baseUrl threadId runId options w")
    from join_fetch_counts[OF f] show
      "acquired (snd (snd (collect parse (joinStream baseUrl threadId runId options) w))) =
              acquired w + 1 \<and>
       released (snd (snd (collect parse (joinStream baseUrl threadId runId options) w))) =
              released w + 1"
      by (simp add: collect_delivers[OF d] f releaseLock_def getReader_def)
  qed
  from a b c show ?thesis
    by blast
qed

theorem reader_released_once_witness:
  "delivers (serving \<lparr>chunks = [js ''data: 1'' @ [LF, LF], js ''data: 2'' @ [LF, LF]],
                      failure = None\<rparr>)
     (js ''http://h'') (js ''t'') (js ''r'') None
     \<lparr>chunks = [js ''data: 1'' @ [LF, LF], js ''data: 2'' @ [LF, LF]], failure = None\<rparr> \<and>
   fst (consume digit_parse [Next, Return]
          (joinStream (js ''http://h'') (js ''t'') (js ''r'') None)
          (serving \<lparr>chunks = [js ''data: 1'' @ [LF, LF], js ''data: 2'' @ [LF, LF]],
                    failure = None\<rparr>)) = Completed \<and>
   acquired (snd (consume digit_parse [Next, Return]
          (joinStream (js ''http://h'') (js ''t'') (js ''r'') None)
          (serving \<lparr>chunks = [js ''data: 1'' @ [LF, LF], js ''data: 2'' @ [LF, LF]],
                    failure = None\<rparr>))) = 1 \<and>
   released (snd (consume digit_parse [Next, Return]
          (joinStream (js ''http://h'') (js ''t'') (js ''r'') None)
          (serving \<lparr>chunks = [js ''data: 1'' @ [LF, LF], js ''data: 2'' @ [LF, LF]],
                    failure = None\<rparr>))) = 1"
proof -
  let ?s = "\<lparr>chunks = [js ''data: 1'' @ [LF, LF], js ''data: 2'' @ [LF, LF]], failure = None\<rparr>"
  let ?g = "joinStream (js ''http://h'') (js ''t'') (js ''r'') None"
  obtain v where f: "join_fetch (js ''http://h'') (js ''t'') (js ''r'') None (serving ?s) =
             (Inr (answer 200 (js ''OK'') (Some ?s)), v)"
    by (simp add: join_fetch_def ids fetch_def serving_def backend_def)
  have l: "while_loop digit_parse [] [js ''data: 1'' @ [LF, LF], js ''data: 2'' @ [LF, LF]] None =
             Suspend \<lparr>event = js ''message'', data = JNumber 1\<rparr> []
               [] \<lparr>chunks = [js ''data: 2'' @ [LF, LF]], failure = None\<rparr>"
    by (simp add: pop_def LF_def js_def startsWith_def digit_parse_def)
  have n: "gen_next digit_parse ?g (serving ?s) =
             (Yielded \<lparr>event = js ''message'', data = JNumber 1\<rparr>,
              SuspendedYield [] [] \<lparr>chunks = [js ''data: 2'' @ [LF, LF]], failure = None\<rparr>,
              getReader v)"
    by (simp add: joinStream_def f l ok_def answer_def del: while_loop.simps)
  have c: "consume digit_parse [Next, Return] ?g (serving ?s) =
             (Completed, releaseLock (getReader v))"
    by (simp add: n)
  have a: "acquired (releaseLock (getReader v)) = acquired (serving ?s) + 1"
    using join_fetch_counts[OF f] by (simp add: releaseLock_def getReader_def)
  have z: "acquired (serving ?s) = 0" "released (serving ?s) = 0"
    by (simp_all add: serving_def backend_def)
  have d: "delivers (serving ?s) (js ''http://h'') (js ''t'') (js ''r'') None ?s"
    by (rule delivers_serving[OF ids])
  show ?thesis
    using a d reader_released_once [OF c, of ?s]
    unfolding c by (simp add: z)
qed

text \<open>
  C1. Decoding does depend on where the reads cut the text. The frame \<^verbatim>\<open>data: 1\<close> with its
  blank line yields one chunk when it arrives in one read, and no chunk when the blank line
  arrives in the next read: the accumulators are declared inside the \<^verbatim>\<open>while\<close> body and
  start empty at every read, so only the buffer of the unfinished line survives a read.
\<close>

theorem split_frame_lost:
  "fst (collect digit_parse (joinStream (js ''http://h'') (js ''t'') (js ''r'') None)
          (serving \<lparr>chunks = [js ''data: 1'' @ [LF, LF]], failure = None\<rparr>)) =
     [\<lparr>event = js ''message'', data = JNumber 1\<rparr>] \<and>
   fst (collect digit_parse (joinStream (js ''http://h'') (js ''t'') (js ''r'') None)
          (serving \<lparr>chunks = [js ''data: 1'' @ [LF], [LF]], failure = None\<rparr>)) = []"
proof -
  have a: "while_yields digit_parse [] [js ''data: 1'' @ [LF, LF]] =
             [\<lparr>event = js ''message'', data = JNumber 1\<rparr>]"
    by (simp add: eval)
  have b: "while_yields digit_parse [] [js ''data: 1'' @ [LF], [LF]] = []"
    by (simp add: eval)
  show ?thesis
    using a b
    by (simp add: collect_delivers[OF delivers_serving[OF ids]])
qed

text \<open>
  C6. Text after which the source signals completion, and which contains no blank line,
  yields no chunk, wherever the reads cut it: the stream yields exactly the chunks of the
  stream that ends before that text, and the iteration ends without an error.
\<close>

theorem trailing_fragment_discarded:
  assumes "delivers w baseUrl threadId runId options
             \<lparr>chunks = reads @ [x @ trailing] @ later, failure = None\<rparr>"
    and "delivers v baseUrl threadId runId options \<lparr>chunks = reads @ [x], failure = None\<rparr>"
    and "[] \<notin> set (butlast (splitLF (trailing @ concat later)))"
  shows "fst (collect parse (joinStream baseUrl threadId runId options) w) =
           fst (collect parse (joinStream baseUrl threadId runId options) v) \<and>
         fst (snd (collect parse (joinStream baseUrl threadId runId options) w)) = None"
proof -
  let ?b = "last (splitLF ([] @ concat reads))"
  have "while_yields parse ?b ((x @ trailing) # later) = while_yields parse ?b [x]"
    by (rule while_yields_cut[OF last_splitLF assms(3)])
  then have "while_yields parse [] (reads @ [x @ trailing] @ later) =
             while_yields parse [] (reads @ [x])"
    using while_yields_append_buffer[of "[]" parse reads "(x @ trailing) # later"]
      while_yields_append_buffer[of "[]" parse reads "[x]"]
    by simp
  then show ?thesis
    by (simp add: collect_delivers[OF assms(1)] collect_delivers[OF assms(2)])
qed

theorem trailing_fragment_discarded_witness:
  "[] \<notin> set (butlast (splitLF (js ''data: '' @ concat [js ''2'' @ [LF]]))) \<and>
   fst (collect digit_parse (joinStream (js ''http://h'') (js ''t'') (js ''r'') None)
          (serving \<lparr>chunks = [] @ [(js ''data: 1'' @ [LF, LF]) @ js ''data: ''] @ [js ''2'' @ [LF]],
                    failure = None\<rparr>)) =
     [\<lparr>event = js ''message'', data = JNumber 1\<rparr>]"
proof -
  have h: "[] \<notin> set (butlast (splitLF (js ''data: '' @ concat [js ''2'' @ [LF]])))"
    by (simp add: js_def LF_def)
  have a: "while_yields digit_parse [] [js ''data: 1'' @ [LF, LF]] =
             [\<lparr>event = js ''message'', data = JNumber 1\<rparr>]"
    by (simp add: eval)
  have d1: "delivers (serving \<lparr>chunks = [] @ [(js ''data: 1'' @ [LF, LF]) @ js ''data: ''] @
                                         [js ''2'' @ [LF]],
                                failure = None\<rparr>)
              (js ''http://h'') (js ''t'') (js ''r'') None
              \<lparr>chunks = [] @ [(js ''data: 1'' @ [LF, LF]) @ js ''data: ''] @ [js ''2'' @ [LF]],
               failure = None\<rparr>"
    by (rule delivers_serving[OF ids])
  have d2: "delivers (serving \<lparr>chunks = [] @ [js ''data: 1'' @ [LF, LF]], failure = None\<rparr>)
              (js ''http://h'') (js ''t'') (js ''r'') None
              \<lparr>chunks = [] @ [js ''data: 1'' @ [LF, LF]], failure = None\<rparr>"
    by (rule delivers_serving[OF ids])
  from trailing_fragment_discarded [OF d1 d2 h, of digit_parse]
  have "fst (collect digit_parse (joinStream (js ''http://h'') (js ''t'') (js ''r'') None)
          (serving \<lparr>chunks = [] @ [(js ''data: 1'' @ [LF, LF]) @ js ''data: ''] @ [js ''2'' @ [LF]],
                    failure = None\<rparr>)) =
        fst (collect digit_parse (joinStream (js ''http://h'') (js ''t'') (js ''r'') None)
          (serving \<lparr>chunks = [] @ [js ''data: 1'' @ [LF, LF]], failure = None\<rparr>))"
    by blast
  also have "\<dots> = [\<lparr>event = js ''message'', data = JNumber 1\<rparr>]"
    unfolding collect_delivers[OF d2] using a by (simp del: while_yields.simps)
  finally show ?thesis
    using h by blast
qed




text \<open>
  C10. In a frame the payload \<open>d\<close> of the last \<^verbatim>\<open>data: \<close> line decides the chunk, however
  many \<^verbatim>\<open>data: \<close> lines precede it. When the frame arrives within one read (after whole
  frames \<open>fs\<close> and before any text \<open>y\<close> of the same read), the stream yields for it the one
  value that \<open>d\<close> parses to, and nothing when \<open>d\<close> does not parse. However the reads cut
  the text of the frame, every chunk that is yielded carries the value that \<open>d\<close> parses to.
\<close>

theorem last_data_line_wins:
  assumes "\<forall>l \<in> set ls. frame_line l"
    and "ls = pre @ [js ''data: '' @ d] @ post"
    and "\<forall>l \<in> set post. \<not> startsWith l (js ''data: '')"
  shows
    "(delivers w baseUrl threadId runId options
        \<lparr>chunks = before @ [concat (map frame_text fs) @ frame_text ls @ y] @ after,
         failure = f\<rparr> \<and>
      delivers wb baseUrl threadId runId options
        \<lparr>chunks = before @ [concat (map frame_text fs)], failure = fb\<rparr> \<and>
      delivers wa baseUrl threadId runId options \<lparr>chunks = [y] @ after, failure = fa\<rparr> \<and>
      (concat before = [] \<or> last (concat before) = LF) \<and>
      (\<forall>ls' \<in> set fs. (\<forall>l \<in> set ls'. frame_line l) \<and> after_data [] ls' \<noteq> []) \<and>
      d \<noteq> [] \<longrightarrow>
      map data (fst (collect parse (joinStream baseUrl threadId runId options) w)) =
        map data (fst (collect parse (joinStream baseUrl threadId runId options) wb)) @
        (case parse d of None \<Rightarrow> [] | Some v \<Rightarrow> [v]) @
        map data (fst (collect parse (joinStream baseUrl threadId runId options) wa))) \<and>
     (delivers w' baseUrl threadId runId options \<lparr>chunks = reads, failure = f'\<rparr> \<and>
      concat reads = frame_text ls \<longrightarrow>
      (\<forall>c \<in> set (fst (collect parse (joinStream baseUrl threadId runId options) w')).
         parse d = Some (data c)))"
proof -
  have d: "after_data [] ls = d"
    using assms(2,3) by (simp add: after_data_last del: append.simps)
  have one: "delivers w baseUrl threadId runId options
        \<lparr>chunks = before @ [concat (map frame_text fs) @ frame_text ls @ y] @ after,
         failure = f\<rparr> \<and>
      delivers wb baseUrl threadId runId options
        \<lparr>chunks = before @ [concat (map frame_text fs)], failure = fb\<rparr> \<and>
      delivers wa baseUrl threadId runId options \<lparr>chunks = [y] @ after, failure = fa\<rparr> \<and>
      (concat before = [] \<or> last (concat before) = LF) \<and>
      (\<forall>ls' \<in> set fs. (\<forall>l \<in> set ls'. frame_line l) \<and> after_data [] ls' \<noteq> []) \<and>
      d \<noteq> [] \<longrightarrow>
      map data (fst (collect parse (joinStream baseUrl threadId runId options) w)) =
        map data (fst (collect parse (joinStream baseUrl threadId runId options) wb)) @
        (case parse d of None \<Rightarrow> [] | Some v \<Rightarrow> [v]) @
        map data (fst (collect parse (joinStream baseUrl threadId runId options) wa))"
  proof (intro impI, elim conjE)
    assume h: "delivers w baseUrl threadId runId options
        \<lparr>chunks = before @ [concat (map frame_text fs) @ frame_text ls @ y] @ after,
         failure = f\<rparr>"
      "delivers wb baseUrl threadId runId options
        \<lparr>chunks = before @ [concat (map frame_text fs)], failure = fb\<rparr>"
      "delivers wa baseUrl threadId runId options \<lparr>chunks = [y] @ after, failure = fa\<rparr>"
      "concat before = [] \<or> last (concat before) = LF"
      "\<forall>ls' \<in> set fs. (\<forall>l \<in> set ls'. frame_line l) \<and> after_data [] ls' \<noteq> []"
      "d \<noteq> []"
    from frame_within_read[OF h(4,5) assms(1), of parse y after] h(6) show
      "map data (fst (collect parse (joinStream baseUrl threadId runId options) w)) =
        map data (fst (collect parse (joinStream baseUrl threadId runId options) wb)) @
        (case parse d of None \<Rightarrow> [] | Some v \<Rightarrow> [v]) @
        map data (fst (collect parse (joinStream baseUrl threadId runId options) wa))"
      by (simp add: collect_delivers[OF h(1)] collect_delivers[OF h(2)]
            collect_delivers[OF h(3)] d split: option.splits del: while_yields.simps)
  qed
  have any: "delivers w' baseUrl threadId runId options \<lparr>chunks = reads, failure = f'\<rparr> \<and>
      concat reads = frame_text ls \<longrightarrow>
      (\<forall>c \<in> set (fst (collect parse (joinStream baseUrl threadId runId options) w')).
         parse d = Some (data c))"
  proof (intro impI, elim conjE)
    assume h: "delivers w' baseUrl threadId runId options \<lparr>chunks = reads, failure = f'\<rparr>"
      "concat reads = frame_text ls"
    from frame_any_reads[OF assms h(2), of parse] show
      "\<forall>c \<in> set (fst (collect parse (joinStream baseUrl threadId runId options) w')).
         parse d = Some (data c)"
      by (simp add: collect_delivers[OF h(1)])
  qed
  from one any show ?thesis
    by blast
qed

theorem last_data_line_wins_witness:
  "map data (fst (collect digit_parse (joinStream (js ''http://h'') (js ''t'') (js ''r'') None)
          (serving \<lparr>chunks = [] @ [concat (map frame_text [[js ''data: 0'']]) @
                                    frame_text [js ''data: 1'', js ''data: 2''] @
                                    js ''data: 9''] @ [],
                    failure = None\<rparr>))) = [JNumber 0, JNumber 2] \<and>
   concat [js ''data: 1'' @ [LF], js ''data: 2'' @ [LF, LF]] =
     frame_text [js ''data: 1'', js ''data: 2''] \<and>
   fst (collect digit_parse (joinStream (js ''http://h'') (js ''t'') (js ''r'') None)
          (serving \<lparr>chunks = [js ''data: 1'' @ [LF], js ''data: 2'' @ [LF, LF]],
                    failure = None\<rparr>)) = [\<lparr>event = js ''message'', data = JNumber 2\<rparr>] \<and>
   digit_parse (js ''2'') = Some (JNumber 2)"
proof -
  let ?J = "joinStream (js ''http://h'') (js ''t'') (js ''r'') None"
  let ?A = "\<lparr>chunks = [] @ [concat (map frame_text [[js ''data: 0'']]) @
                            frame_text [js ''data: 1'', js ''data: 2''] @ js ''data: 9''] @ [],
             failure = None\<rparr>"
  let ?B = "\<lparr>chunks = [js ''data: 1'' @ [LF], js ''data: 2'' @ [LF, LF]], failure = None\<rparr>"
  let ?P = "\<lparr>chunks = [] @ [concat (map frame_text [[js ''data: 0'']])], failure = None\<rparr>"
  let ?Q = "\<lparr>chunks = [js ''data: 9''] @ [], failure = None\<rparr>"
  have dA: "delivers (serving ?A) (js ''http://h'') (js ''t'') (js ''r'') None ?A"
    and dB: "delivers (serving ?B) (js ''http://h'') (js ''t'') (js ''r'') None ?B"
    and dP: "delivers (serving ?P) (js ''http://h'') (js ''t'') (js ''r'') None ?P"
    and dQ: "delivers (serving ?Q) (js ''http://h'') (js ''t'') (js ''r'') None ?Q"
    by (rule delivers_serving[OF ids])+
  have l: "\<forall>l \<in> set [js ''data: 1'', js ''data: 2'']. frame_line l"
    by (simp add: frame_line_def js_def LF_def)
  have s: "[js ''data: 1'', js ''data: 2''] = [js ''data: 1''] @ [js ''data: '' @ js ''2''] @ []"
    by (simp add: js_def)
  have p: "\<forall>l \<in> set ([] :: jsstring list). \<not> startsWith l (js ''data: '')"
    by simp
  have b: "concat ([] :: jsstring list) = [] \<or> last (concat ([] :: jsstring list)) = LF"
    by simp
  have fs: "\<forall>ls' \<in> set [[js ''data: 0'']]. (\<forall>l \<in> set ls'. frame_line l) \<and> after_data [] ls' \<noteq> []"
    by (simp add: frame_line_def startsWith_def js_def LF_def)
  have n: "js ''2'' \<noteq> []"
    by (simp add: js_def)
  have c: "concat [js ''data: 1'' @ [LF], js ''data: 2'' @ [LF, LF]] =
             frame_text [js ''data: 1'', js ''data: 2'']"
    by (simp add: frame_text_def)
  have P: "map data (fst (collect digit_parse ?J (serving ?P))) = [JNumber 0]"
    unfolding served by (simp add: eval frame_text_def)
  have Q: "map data (fst (collect digit_parse ?J (serving ?Q))) = []"
    unfolding served by (simp add: eval)
  have B: "fst (collect digit_parse ?J (serving ?B)) = [\<lparr>event = js ''message'', data = JNumber 2\<rparr>]"
    unfolding served by (simp add: eval)
  note t = last_data_line_wins [where parse = digit_parse and w = "serving ?A"
      and wb = "serving ?P" and wa = "serving ?Q" and w' = "serving ?B"
      and baseUrl = "js ''http://h''" and threadId = "js ''t''" and runId = "js ''r''"
      and options = None and before = "[]" and after = "[]" and fs = "[[js ''data: 0'']]"
      and y = "js ''data: 9''" and f = None and fb = None and fa = None and f' = None
      and reads = "[js ''data: 1'' @ [LF], js ''data: 2'' @ [LF, LF]]", OF l s p]
  from t dB c have "\<forall>c \<in> set (fst (collect digit_parse ?J (serving ?B))).
      digit_parse (js ''2'') = Some (data c)"
    by blast
  with B have v: "digit_parse (js ''2'') = Some (JNumber 2)"
    by simp
  from t dA dP dQ b fs n have
    "map data (fst (collect digit_parse ?J (serving ?A))) =
       map data (fst (collect digit_parse ?J (serving ?P))) @
       (case digit_parse (js ''2'') of None \<Rightarrow> [] | Some v \<Rightarrow> [v]) @
       map data (fst (collect digit_parse ?J (serving ?Q)))"
    by blast
  then have A: "map data (fst (collect digit_parse ?J (serving ?A))) = [JNumber 0, JNumber 2]"
    unfolding P Q by (simp add: v)
  from A c B v show ?thesis
    by blast
qed

text \<open>
  C5. Two frames that parse and one that does not, between them: delivered in one read the
  stream yields the two chunks; with the blank line of the last frame in a read of its own
  the stream yields only the first, because the accumulators are emptied at every read.
\<close>

theorem malformed_frame_then_split_frame:
  "digit_parse (js ''{oops'') = None \<and>
   fst (collect digit_parse (joinStream (js ''http://h'') (js ''t'') (js ''r'') None)
          (serving \<lparr>chunks = [js ''data: 1'' @ [LF, LF] @ js ''data: {oops'' @ [LF, LF] @
                              js ''data: 2'' @ [LF, LF]],
                    failure = None\<rparr>)) =
     [\<lparr>event = js ''message'', data = JNumber 1\<rparr>, \<lparr>event = js ''message'', data = JNumber 2\<rparr>] \<and>
   fst (collect digit_parse (joinStream (js ''http://h'') (js ''t'') (js ''r'') None)
          (serving \<lparr>chunks = [js ''data: 1'' @ [LF, LF] @ js ''data: {oops'' @ [LF, LF] @
                              js ''data: 2'' @ [LF],
                              [LF]],
                    failure = None\<rparr>)) =
     [\<lparr>event = js ''message'', data = JNumber 1\<rparr>]"
proof -
  have a: "while_yields digit_parse []
             [js ''data: 1'' @ [LF, LF] @ js ''data: {oops'' @ [LF, LF] @ js ''data: 2'' @ [LF, LF]] =
           [\<lparr>event = js ''message'', data = JNumber 1\<rparr>, \<lparr>event = js ''message'', data = JNumber 2\<rparr>]"
    by (simp add: eval)
  have b: "while_yields digit_parse []
             [js ''data: 1'' @ [LF, LF] @ js ''data: {oops'' @ [LF, LF] @ js ''data: 2'' @ [LF], [LF]] =
           [\<lparr>event = js ''message'', data = JNumber 1\<rparr>]"
    by (simp add: eval)
  have c: "digit_parse (js ''{oops'') = None"
    by (simp add: eval)
  show ?thesis
    using a b c
    by (simp add: collect_delivers[OF delivers_serving[OF ids]])
qed

end
